theory Spec2Isabelle
  imports Main "HOL-Library.Word"
begin

section \<open>ring_buffer.c: the bounded free-list of slot indices\<close>

type_synonym uint32_t = "32 word"

text \<open>\<^verbatim>\<open>#define RING_BUFFER_NO_INDEX (UINT32_MAX)\<close>\<close>

definition RING_BUFFER_NO_INDEX :: uint32_t where
  "RING_BUFFER_NO_INDEX = 0xFFFFFFFF"

record RING_BUFFER_Ctx_t =
  capacity :: uint32_t
  usage :: uint32_t
  head :: uint32_t
  tail :: uint32_t

text \<open>\<^verbatim>\<open>memset(ctx, 0x00, sizeof(*ctx)); ctx->capacity = capacity;\<close>\<close>

definition RING_BUFFER_Init :: "uint32_t \<Rightarrow> RING_BUFFER_Ctx_t" where
  "RING_BUFFER_Init cap = \<lparr>capacity = cap, usage = 0, head = 0, tail = 0\<rparr>"

text \<open>Both operations return the index and the updated context; the \<^verbatim>\<open>++\<close> and
  \<^verbatim>\<open>--\<close> on \<^verbatim>\<open>uint32_t\<close> are the wrapping word operations.\<close>

definition RING_BUFFER_Put :: "RING_BUFFER_Ctx_t \<Rightarrow> uint32_t \<times> RING_BUFFER_Ctx_t" where
  "RING_BUFFER_Put ctx =
     (if usage ctx < capacity ctx then
        (let index = head ctx;
             ctx1 = ctx\<lparr>head := head ctx + 1\<rparr>;
             ctx2 = (if head ctx1 = capacity ctx1 then ctx1\<lparr>head := 0\<rparr> else ctx1);
             ctx3 = ctx2\<lparr>usage := usage ctx2 + 1\<rparr>
         in (index, ctx3))
      else (RING_BUFFER_NO_INDEX, ctx))"

definition RING_BUFFER_Get :: "RING_BUFFER_Ctx_t \<Rightarrow> uint32_t \<times> RING_BUFFER_Ctx_t" where
  "RING_BUFFER_Get ctx =
     (if usage ctx > 0 then
        (let index = tail ctx;
             ctx1 = ctx\<lparr>tail := tail ctx + 1\<rparr>;
             ctx2 = (if tail ctx1 = capacity ctx1 then ctx1\<lparr>tail := 0\<rparr> else ctx1);
             ctx3 = ctx2\<lparr>usage := usage ctx2 - 1\<rparr>
         in (index, ctx3))
      else (RING_BUFFER_NO_INDEX, ctx))"

text \<open>The contexts a client can reach: \<^verbatim>\<open>RING_BUFFER_Init\<close> followed by any sequence
  of puts and gets (failed ones included, they leave the context as it is).\<close>

inductive rb_reach :: "uint32_t \<Rightarrow> RING_BUFFER_Ctx_t \<Rightarrow> bool" for cap :: uint32_t where
  rb_init: "rb_reach cap (RING_BUFFER_Init cap)"
| rb_put: "rb_reach cap ctx \<Longrightarrow> rb_reach cap (snd (RING_BUFFER_Put ctx))"
| rb_get: "rb_reach cap ctx \<Longrightarrow> rb_reach cap (snd (RING_BUFFER_Get ctx))"

text \<open>The counters stay inside the capacity: the invariant of the head/tail/usage triple,
  read as natural numbers.\<close>

definition rb_inv :: "RING_BUFFER_Ctx_t \<Rightarrow> bool" where
  "rb_inv ctx \<longleftrightarrow>
     unat (usage ctx) \<le> unat (capacity ctx) \<and>
     (if capacity ctx = 0 then head ctx = 0 \<and> tail ctx = 0
      else unat (head ctx) < unat (capacity ctx) \<and> unat (tail ctx) < unat (capacity ctx) \<and>
           unat (head ctx) = (unat (tail ctx) + unat (usage ctx)) mod unat (capacity ctx))"

section \<open>usb_buff.h and the asynchronous I/O interface\<close>

text \<open>The target is the 32-bit ARM of the PlutoSDR: \<^verbatim>\<open>size_t\<close>, \<^verbatim>\<open>ssize_t\<close> and
  \<^verbatim>\<open>long\<close> are 32 bits wide. The casts between them in the sources keep the bit pattern,
  so the comparisons of the sources are comparisons of words.\<close>

type_synonym size_t = "32 word"
type_synonym ssize_t = "32 word"
type_synonym long = "32 word"

definition ESHUTDOWN :: long where
  "ESHUTDOWN = 108"

text \<open>\<^verbatim>\<open>#define NUM_BUFS (16)\<close>, in thread_read.c and in thread_write.c.\<close>

definition NUM_BUFS :: nat where
  "NUM_BUFS = 16"

text \<open>Every \<^verbatim>\<open>usb_buf_t\<close> is allocated by \<^verbatim>\<open>alloc_usb_buffer\<close>. The allocations of one
  engine are numbered in the order they are made and kept in a store (a list, the
  \<open>n\<close>-th allocation at position \<open>n\<close>); a pointer \<^verbatim>\<open>usb_buf_t*\<close> is \<open>None\<close> for
  \<^verbatim>\<open>NULL\<close> or the number of an allocation. Of the object only the flag is modelled: the
  sample bytes are read by no property below, and the \<^verbatim>\<open>iocb\<close> is prepared once with
  \<^verbatim>\<open>iocb.data = buf\<close>, so a request and its completion are identified with the buffer.\<close>

type_synonym usb_buf_ptr = "nat option"

record usb_buf_t =
  in_use :: bool

text \<open>\<^verbatim>\<open>struct io_event\<close>: \<^verbatim>\<open>data\<close> is the \<^verbatim>\<open>iocb.data\<close> of the completed request.\<close>

record io_event =
  data :: usb_buf_ptr
  res :: long
  res2 :: long

text \<open>What a dereference of a bad pointer or an array access out of range would be in C
  (undefined behaviour) is a fault of the model.\<close>

datatype fault = OutOfBounds | BadPointer

datatype fd = Stats_timerfd | Aio_eventfd | Epoll_fd

text \<open>The effects of an engine that the properties below observe, in the order they happen.
  \<open>Io_submit p\<close> is a call \<^verbatim>\<open>io_submit(io_ctx, 1, &iocb)\<close> for the buffer \<open>p\<close>, whatever
  it returns, and \<open>Io_submit_all ps\<close> the one call that submits a whole array. The \<^verbatim>\<open>DEBUG_PRINT\<close> traces are not effects of the model.\<close>

datatype effect =
    Perror string
  | Stderr_usb_error long long
  | Stderr_refill_failed size_t ssize_t
  | Printf_overflows uint32_t
  | Iio_buffer_refill
  | Iio_buffer_push
  | Io_submit usb_buf_ptr
  | Io_submit_all "usb_buf_ptr list"
  | Stderr string
  | Io_destroy
  | Free usb_buf_ptr
  | Close fd
  | Iio_buffer_destroy
  | Iio_context_destroy

section \<open>thread_read.c: the RX engine\<close>

text \<open>\<^verbatim>\<open>state_t\<close> of thread_read.c. \<open>io_ctx\<close> is the kernel's side of the AIO context:
  the requests submitted and not yet returned by \<^verbatim>\<open>io_getevents\<close>, by buffer number.
  \<open>overflows\<close> exists in the C structure only when the file is compiled with
  \<^verbatim>\<open>GENERATE_STATS\<close> set; the flag is the parameter \<open>stats\<close> of the functions below (its
  default in the source is 0), and with \<open>stats = False\<close> nothing reads or writes the field.
  \<open>heap\<close> is the store of the allocations and \<open>effects\<close> the trace.\<close>

record rx_state_t =
  keep_running :: bool
  usb_buffer_size :: size_t
  io_ctx :: "nat list"
  buffers :: "usb_buf_ptr list"
  ring_buf_ctx :: RING_BUFFER_Ctx_t
  ring_buf_data :: "usb_buf_ptr list"
  overflows :: uint32_t
  heap :: "usb_buf_t list"
  effects :: "effect list"

text \<open>The state when the pool is about to be set up (line 271): \<^verbatim>\<open>memset\<close> has zeroed
  it, \<^verbatim>\<open>usb_buffer_size\<close> is computed and \<^verbatim>\<open>io_setup\<close> has made an empty context.\<close>

definition rx_state_zero :: "size_t \<Rightarrow> rx_state_t" where
  "rx_state_zero usb_size =
     \<lparr>keep_running = False, usb_buffer_size = usb_size, io_ctx = [],
      buffers = replicate NUM_BUFS None,
      ring_buf_ctx = \<lparr>capacity = 0, usage = 0, head = 0, tail = 0\<rparr>,
      ring_buf_data = replicate NUM_BUFS None,
      overflows = 0, heap = [], effects = []\<rparr>"

text \<open>\<^verbatim>\<open>alloc_usb_buffer\<close>; \<open>malloc_ok\<close> tells whether \<^verbatim>\<open>malloc\<close> returns memory.\<close>

definition alloc_usb_buffer :: "bool \<Rightarrow> rx_state_t \<Rightarrow> usb_buf_ptr \<times> rx_state_t" where
  "alloc_usb_buffer malloc_ok s =
     (if \<not> malloc_ok then (None, s\<lparr>effects := effects s @ [Perror ''alloc_buffer failed'']\<rparr>)
      else (Some (length (heap s)), s\<lparr>heap := heap s @ [\<lparr>in_use = False\<rparr>]\<rparr>))"

text \<open>The body of the allocation loop (lines 277 to 288) for the index \<open>i\<close>. The result
  \<open>Inr None\<close> is the \<^verbatim>\<open>return NULL\<close> of the thread. The index that
  \<^verbatim>\<open>RING_BUFFER_Put\<close> returns is used unchecked to write \<^verbatim>\<open>ring_buf_data\<close>.\<close>

definition rx_alloc_iter :: "(nat \<Rightarrow> bool) \<Rightarrow> nat \<Rightarrow> rx_state_t \<Rightarrow> fault + rx_state_t option" where
  "rx_alloc_iter malloc_ok i s =
     (case alloc_usb_buffer (malloc_ok i) s of
        (None, s1) \<Rightarrow> Inr None
      | (Some b, s1) \<Rightarrow>
          (let s2 = s1\<lparr>buffers := (buffers s1)[i := Some b]\<rparr>;
               (index, rb) = RING_BUFFER_Put (ring_buf_ctx s2);
               s3 = s2\<lparr>ring_buf_ctx := rb\<rparr>
           in if unat index < NUM_BUFS
              then Inr (Some (s3\<lparr>ring_buf_data := (ring_buf_data s3)[unat index := Some b]\<rparr>))
              else Inl OutOfBounds))"

text \<open>\<^verbatim>\<open>for (unsigned int i = 0; i < ARRAY_SIZE(state.buffers); i++)\<close>\<close>

function rx_alloc_loop :: "(nat \<Rightarrow> bool) \<Rightarrow> nat \<Rightarrow> rx_state_t \<Rightarrow> fault + rx_state_t option" where
  "rx_alloc_loop malloc_ok i s =
     (if i < NUM_BUFS then
        (case rx_alloc_iter malloc_ok i s of
           Inl f \<Rightarrow> Inl f
         | Inr None \<Rightarrow> Inr None
         | Inr (Some s') \<Rightarrow> rx_alloc_loop malloc_ok (Suc i) s')
      else Inr (Some s))"
  by pat_completeness auto
termination
  by (relation "measure (\<lambda>(malloc_ok, i, s). NUM_BUFS - i)") auto

declare rx_alloc_loop.simps [simp del]

text \<open>Lines 271 to 289: \<^verbatim>\<open>RING_BUFFER_Init\<close> with the length of \<^verbatim>\<open>ring_buf_data\<close>, then the
  allocation loop.\<close>

definition rx_pool_init :: "(nat \<Rightarrow> bool) \<Rightarrow> size_t \<Rightarrow> fault + rx_state_t option" where
  "rx_pool_init malloc_ok usb_size =
     rx_alloc_loop malloc_ok 0 ((rx_state_zero usb_size)\<lparr>ring_buf_ctx := RING_BUFFER_Init (of_nat NUM_BUFS)\<rparr>)"

text \<open>The handlers return the \<^verbatim>\<open>int\<close> of the source and the new state.\<close>

definition handle_eventfd_thread :: "rx_state_t \<Rightarrow> int \<times> rx_state_t" where
  "handle_eventfd_thread state = (0, state\<lparr>keep_running := False\<rparr>)"

text \<open>The body of the loop over the completion events (lines 410 to 430).\<close>

definition rx_completion :: "io_event \<Rightarrow> rx_state_t \<Rightarrow> fault + rx_state_t" where
  "rx_completion event state =
     (let s1 = (if usb_buffer_size state \<noteq> res event
                then (if - ESHUTDOWN \<noteq> res event
                      then state\<lparr>effects := effects state @ [Stderr_usb_error (res event) (res2 event)]\<rparr>
                      else state)
                else state)
      in case data event of
           None \<Rightarrow> Inl BadPointer
         | Some b \<Rightarrow>
             if \<not> b < length (heap s1) then Inl BadPointer
             else
               (let s2 = s1\<lparr>heap := (heap s1)[b := (heap s1 ! b)\<lparr>in_use := False\<rparr>]\<rparr>;
                    (index, rb) = RING_BUFFER_Put (ring_buf_ctx s2);
                    s3 = s2\<lparr>ring_buf_ctx := rb\<rparr>
                in if unat index < NUM_BUFS
                   then Inr (s3\<lparr>ring_buf_data := (ring_buf_data s3)[unat index := Some b]\<rparr>)
                   else Inl OutOfBounds))"

fun rx_completions :: "io_event list \<Rightarrow> rx_state_t \<Rightarrow> fault + rx_state_t" where
  "rx_completions [] state = Inr state"
| "rx_completions (event # events) state =
     (case rx_completion event state of
        Inl f \<Rightarrow> Inl f
      | Inr state' \<Rightarrow> rx_completions events state')"

text \<open>The kernel's side of \<^verbatim>\<open>io_getevents\<close>: the requests whose events it returns leave
  the context.\<close>

definition io_getevents_reap :: "io_event list \<Rightarrow> nat list \<Rightarrow> nat list" where
  "io_getevents_reap events ctx = filter (\<lambda>b. Some b \<notin> set (map data events)) ctx"

text \<open>\<^verbatim>\<open>handle_eventfd_aio\<close> of thread_read.c. \<open>read_ret\<close> is the result of the
  \<^verbatim>\<open>read\<close> of the eventfd, \<open>ret\<close> the result of \<^verbatim>\<open>io_getevents\<close> and \<open>events\<close> the
  array it filled; the loop visits the first \<open>ret\<close> entries.\<close>

definition handle_eventfd_aio :: "int \<Rightarrow> int \<Rightarrow> io_event list \<Rightarrow> rx_state_t \<Rightarrow> fault + int \<times> rx_state_t" where
  "handle_eventfd_aio read_ret ret events state =
     (if read_ret < 0
      then Inr (- 1, state\<lparr>effects := effects state @ [Perror ''Failed to read aio completion eventfd'']\<rparr>)
      else if ret < 0
      then Inr (- 1, state\<lparr>effects := effects state @ [Perror ''Failed to read completed io events'']\<rparr>)
      else
        (case rx_completions (take (nat ret) events)
                (state\<lparr>io_ctx := io_getevents_reap (take (nat ret) events) (io_ctx state)\<rparr>) of
           Inl f \<Rightarrow> Inl f
         | Inr state' \<Rightarrow> Inr (0, state')))"

text \<open>\<^verbatim>\<open>handle_iio_buffer\<close>. \<open>nbytes\<close> is the result of \<^verbatim>\<open>iio_buffer_refill\<close> and
  \<open>submit_res\<close> the result of \<^verbatim>\<open>io_submit\<close>, which queues the request exactly when it
  returns 1. \<open>stats\<close> is \<^verbatim>\<open>GENERATE_STATS\<close>.\<close>

definition handle_iio_buffer :: "bool \<Rightarrow> ssize_t \<Rightarrow> int \<Rightarrow> rx_state_t \<Rightarrow> fault + int \<times> rx_state_t" where
  "handle_iio_buffer stats nbytes submit_res state =
     (let s0 = state\<lparr>effects := effects state @ [Iio_buffer_refill]\<rparr> in
      if nbytes \<noteq> usb_buffer_size s0
      then Inr (- 1, s0\<lparr>effects := effects s0 @ [Stderr_refill_failed (usb_buffer_size s0) nbytes]\<rparr>)
      else
        (let (index, rb) = RING_BUFFER_Get (ring_buf_ctx s0);
             s1 = s0\<lparr>ring_buf_ctx := rb\<rparr>
         in if RING_BUFFER_NO_INDEX \<noteq> index then
              (if \<not> unat index < NUM_BUFS then Inl OutOfBounds
               else case ring_buf_data s1 ! unat index of
                 None \<Rightarrow> Inl BadPointer
               | Some b \<Rightarrow>
                   if \<not> b < length (heap s1) then Inl BadPointer
                   else
                     (let s2 = s1\<lparr>heap := (heap s1)[b := (heap s1 ! b)\<lparr>in_use := True\<rparr>]\<rparr>;
                          s3 = s2\<lparr>effects := effects s2 @ [Io_submit (Some b)],
                                  io_ctx := (if submit_res = 1 then io_ctx s2 @ [b] else io_ctx s2)\<rparr>
                      in if 1 \<noteq> submit_res
                         then Inr (- 1, s3\<lparr>effects := effects s3 @ [Perror ''Failed to submit usb write''],
                                           heap := (heap s3)[b := (heap s3 ! b)\<lparr>in_use := False\<rparr>]\<rparr>)
                         else Inr (0, s3)))
            else
              Inr (0, if stats then s1\<lparr>overflows := overflows s1 + 1\<rparr> else s1)))"

text \<open>\<^verbatim>\<open>handle_stats_timer\<close>, compiled only with \<^verbatim>\<open>GENERATE_STATS\<close>; the time
  statistics it prints are not modelled.\<close>

definition handle_stats_timer :: "int \<Rightarrow> rx_state_t \<Rightarrow> int \<times> rx_state_t" where
  "handle_stats_timer read_ret state =
     (if read_ret < 0 then (1, state\<lparr>effects := effects state @ [Perror ''Failed to read timerfd'']\<rparr>)
      else
        (let s1 = (if overflows state > 0
                   then state\<lparr>effects := effects state @ [Printf_overflows (overflows state)]\<rparr>
                   else state)
         in (0, s1\<lparr>overflows := 0\<rparr>)))"

text \<open>One ready source of the event loop, with the results of the system calls its handler
  makes.\<close>

datatype rx_ready =
    Quit_ready
  | Aio_ready int int "io_event list"
  | Iio_ready ssize_t int
  | Stats_ready int

definition rx_dispatch :: "bool \<Rightarrow> rx_ready \<Rightarrow> rx_state_t \<Rightarrow> fault + int \<times> rx_state_t" where
  "rx_dispatch stats r state =
     (case r of
        Quit_ready \<Rightarrow> Inr (handle_eventfd_thread state)
      | Aio_ready read_ret ret events \<Rightarrow> handle_eventfd_aio read_ret ret events state
      | Iio_ready nbytes submit_res \<Rightarrow> handle_iio_buffer stats nbytes submit_res state
      | Stats_ready read_ret \<Rightarrow> Inr (handle_stats_timer read_ret state))"

text \<open>What the kernel guarantees about the results: \<^verbatim>\<open>io_getevents\<close> returns at most as
  many events as the array holds, each for a different request, and only for requests that
  were submitted to the context and not returned before; the stats timer is registered only
  with \<^verbatim>\<open>GENERATE_STATS\<close>.\<close>

definition rx_kernel_ok :: "bool \<Rightarrow> rx_state_t \<Rightarrow> rx_ready \<Rightarrow> bool" where
  "rx_kernel_ok stats state r =
     (case r of
        Aio_ready read_ret ret events \<Rightarrow>
          (0 \<le> read_ret \<and> 0 \<le> ret \<longrightarrow>
             nat ret \<le> length events \<and>
             distinct (map data (take (nat ret) events)) \<and>
             (\<forall>e \<in> set (take (nat ret) events).
                case data e of None \<Rightarrow> False | Some b \<Rightarrow> b \<in> set (io_ctx state)))
      | Stats_ready read_ret \<Rightarrow> stats
      | _ \<Rightarrow> True)"

text \<open>Modelled from the spec: \<^verbatim>\<open>EPOLL_LOOP_Run\<close> (epoll_loop.c is not among the
  sources). The spec describes it as "run(timeout): dispatches one or more ready callbacks
  or returns failure", and main.c says of the call "Run epoll until it or one of its
  handlers fails": the ready handlers are called in turn, and a handler that returns a
  negative value ends the run with a negative result.\<close>

datatype rx_epoll = Epoll_failed | Epoll_ready "rx_ready list"

fun rx_run_handlers :: "bool \<Rightarrow> rx_ready list \<Rightarrow> rx_state_t \<Rightarrow> fault + int \<times> rx_state_t" where
  "rx_run_handlers stats [] state = Inr (0, state)"
| "rx_run_handlers stats (r # rs) state =
     (case rx_dispatch stats r state of
        Inl f \<Rightarrow> Inl f
      | Inr (rc, state') \<Rightarrow> if rc < 0 then Inr (- 1, state') else rx_run_handlers stats rs state')"

definition rx_EPOLL_LOOP_Run :: "bool \<Rightarrow> rx_epoll \<Rightarrow> rx_state_t \<Rightarrow> fault + int \<times> rx_state_t" where
  "rx_EPOLL_LOOP_Run stats ep state =
     (case ep of
        Epoll_failed \<Rightarrow> Inr (- 1, state)
      | Epoll_ready rs \<Rightarrow> rx_run_handlers stats rs state)"

text \<open>The main loop (lines 340 to 347) over the successive results of \<^verbatim>\<open>epoll_wait\<close>.
  \<open>Inr None\<close>: the engine is still in the loop when the given results are used up.\<close>

fun rx_main_loop :: "bool \<Rightarrow> rx_epoll list \<Rightarrow> rx_state_t \<Rightarrow> fault + rx_state_t option" where
  "rx_main_loop stats [] state = (if keep_running state then Inr None else Inr (Some state))"
| "rx_main_loop stats (ep # eps) state =
     (if keep_running state then
        (case rx_EPOLL_LOOP_Run stats ep state of
           Inl f \<Rightarrow> Inl f
         | Inr (rc, state') \<Rightarrow> if rc < 0 then Inr (Some state') else rx_main_loop stats eps state')
      else Inr (Some state))"

text \<open>The shutdown sequence (lines 350 to 368), one step per statement.
  \<^verbatim>\<open>io_destroy\<close> cancels what is pending: the context is empty afterwards.\<close>

definition rx_io_destroy :: "rx_state_t \<Rightarrow> rx_state_t" where
  "rx_io_destroy state = state\<lparr>io_ctx := [], effects := effects state @ [Io_destroy]\<rparr>"

function rx_free_buffers :: "nat \<Rightarrow> rx_state_t \<Rightarrow> rx_state_t" where
  "rx_free_buffers i state =
     (if i < NUM_BUFS then
        rx_free_buffers (Suc i)
          (state\<lparr>effects := effects state @ [Free (buffers state ! i)],
                 buffers := (buffers state)[i := None]\<rparr>)
      else state)"
  by pat_completeness auto
termination
  by (relation "measure (\<lambda>(i, state). NUM_BUFS - i)") auto

declare rx_free_buffers.simps [simp del]

definition rx_close_all :: "bool \<Rightarrow> rx_state_t \<Rightarrow> rx_state_t" where
  "rx_close_all stats state =
     (let s1 = (if stats then state\<lparr>effects := effects state @ [Close Stats_timerfd]\<rparr> else state);
          s2 = s1\<lparr>effects := effects s1 @ [Close Aio_eventfd]\<rparr>;
          s3 = s2\<lparr>effects := effects s2 @ [Iio_buffer_destroy]\<rparr>;
          s4 = s3\<lparr>effects := effects s3 @ [Iio_context_destroy]\<rparr>
      in s4\<lparr>effects := effects s4 @ [Close Epoll_fd]\<rparr>)"

definition rx_shutdown :: "bool \<Rightarrow> rx_state_t \<Rightarrow> rx_state_t" where
  "rx_shutdown stats state = rx_close_all stats (rx_free_buffers 0 (rx_io_destroy state))"

text \<open>\<^verbatim>\<open>THREAD_READ_Entrypoint\<close> from the set-up of the pool on: the pool, the main loop,
  the shutdown sequence. \<open>Inr None\<close>: the thread returned during the set-up, or is still
  in the loop.\<close>

definition THREAD_READ_Entrypoint ::
    "bool \<Rightarrow> (nat \<Rightarrow> bool) \<Rightarrow> size_t \<Rightarrow> rx_epoll list \<Rightarrow> fault + rx_state_t option" where
  "THREAD_READ_Entrypoint stats malloc_ok usb_size eps =
     (case rx_pool_init malloc_ok usb_size of
        Inl f \<Rightarrow> Inl f
      | Inr None \<Rightarrow> Inr None
      | Inr (Some s) \<Rightarrow>
          (case rx_main_loop stats eps (s\<lparr>keep_running := True\<rparr>) of
             Inl f \<Rightarrow> Inl f
           | Inr None \<Rightarrow> Inr None
           | Inr (Some s') \<Rightarrow> Inr (Some (rx_shutdown stats s'))))"

text \<open>The states at a dispatch boundary while the engine is in its main loop: the state on
  entry to the loop, and the state after any handler that did not fail, called on results
  the kernel can give. (After a handler that fails the loop is left, and the shutdown
  sequence runs.)\<close>

inductive rx_running :: "bool \<Rightarrow> rx_state_t \<Rightarrow> bool" for stats :: bool where
  rx_enter: "rx_pool_init malloc_ok usb_size = Inr (Some s) \<Longrightarrow> rx_running stats (s\<lparr>keep_running := True\<rparr>)"
| rx_step: "rx_running stats s \<Longrightarrow> rx_kernel_ok stats s r \<Longrightarrow>
            rx_dispatch stats r s = Inr (rc, s') \<Longrightarrow> 0 \<le> rc \<Longrightarrow> rx_running stats s'"

text \<open>What a ring of slots holds: the entries of the data array in the used slots, from
  the tail on, oldest first.\<close>

definition ring_contents :: "RING_BUFFER_Ctx_t \<Rightarrow> 'a list \<Rightarrow> 'a list" where
  "ring_contents ctx dat =
     map (\<lambda>k. dat ! ((unat (tail ctx) + k) mod unat (capacity ctx))) [0 ..< unat (usage ctx)]"

text \<open>The free-list of the RX engine is what its ring holds. A buffer is in flight when
  its flag is set.\<close>

definition free_list :: "rx_state_t \<Rightarrow> usb_buf_ptr list" where
  "free_list state = ring_contents (ring_buf_ctx state) (ring_buf_data state)"

definition in_flight :: "rx_state_t \<Rightarrow> nat list" where
  "in_flight state = filter (\<lambda>b. in_use (heap state ! b)) [0 ..< NUM_BUFS]"

text \<open>The invariant of the pool, stated for the inside of the completion loop as well:
  \<open>R\<close> are the requests that \<^verbatim>\<open>io_getevents\<close> has returned and the loop has not yet
  put back. Free-list, context and \<open>R\<close> hold every buffer exactly once, and the flag of a
  buffer is set exactly when it is in the context or in \<open>R\<close>.\<close>

definition rx_part :: "nat list \<Rightarrow> rx_state_t \<Rightarrow> bool" where
  "rx_part R state \<longleftrightarrow>
     capacity (ring_buf_ctx state) = of_nat NUM_BUFS \<and>
     rb_inv (ring_buf_ctx state) \<and>
     length (ring_buf_data state) = NUM_BUFS \<and>
     length (heap state) = NUM_BUFS \<and>
     distinct (free_list state @ map Some (io_ctx state) @ map Some R) \<and>
     set (free_list state) \<union> Some ` set (io_ctx state) \<union> Some ` set R = Some ` {0 ..< NUM_BUFS} \<and>
     (\<forall>b < NUM_BUFS. in_use (heap state ! b) \<longleftrightarrow> b \<in> set (io_ctx state) \<or> b \<in> set R)"

text \<open>What the body of the completion loop does to the state when nothing faults: the
  message, the flag, the put and the store into the ring; and the message alone.\<close>

definition rx_error_log :: "size_t \<Rightarrow> io_event \<Rightarrow> effect list" where
  "rx_error_log usb_size ev =
     (if usb_size \<noteq> res ev \<and> res ev \<noteq> - ESHUTDOWN
      then [Stderr_usb_error (res ev) (res2 ev)] else [])"

definition rx_put_back :: "io_event \<Rightarrow> nat \<Rightarrow> rx_state_t \<Rightarrow> rx_state_t" where
  "rx_put_back ev b s =
     s\<lparr>effects := effects s @ rx_error_log (usb_buffer_size s) ev,
       heap := (heap s)[b := (heap s ! b)\<lparr>in_use := False\<rparr>],
       ring_buf_ctx := snd (RING_BUFFER_Put (ring_buf_ctx s)),
       ring_buf_data := (ring_buf_data s)[unat (fst (RING_BUFFER_Put (ring_buf_ctx s))) := Some b]\<rparr>"

text \<open>The invariant of the allocation loop, before the iteration \<open>i\<close>: the first
  \<open>i\<close> buffers are allocated, unused, recorded in \<^verbatim>\<open>buffers\<close> and held by the first
  \<open>i\<close> slots of the ring.\<close>

definition rx_pool_inv :: "nat \<Rightarrow> rx_state_t \<Rightarrow> bool" where
  "rx_pool_inv i state \<longleftrightarrow>
     capacity (ring_buf_ctx state) = of_nat NUM_BUFS \<and>
     rb_inv (ring_buf_ctx state) \<and>
     tail (ring_buf_ctx state) = 0 \<and>
     unat (usage (ring_buf_ctx state)) = i \<and>
     length (ring_buf_data state) = NUM_BUFS \<and>
     length (buffers state) = NUM_BUFS \<and>
     length (heap state) = i \<and>
     io_ctx state = [] \<and>
     (\<forall>k < i. ring_buf_data state ! k = Some k \<and> buffers state ! k = Some k \<and>
               \<not> in_use (heap state ! k))"

text \<open>The state on entry to the main loop when every allocation succeeded: all sixteen
  buffers in the free-list, none in flight.\<close>

definition rx_state_ready :: "size_t \<Rightarrow> rx_state_t" where
  "rx_state_ready usb_size =
     \<lparr>keep_running = True, usb_buffer_size = usb_size, io_ctx = [],
      buffers = map Some [0 ..< 16],
      ring_buf_ctx = \<lparr>capacity = 16, usage = 16, head = 0, tail = 0\<rparr>,
      ring_buf_data = map Some [0 ..< 16],
      overflows = 0, heap = replicate 16 \<lparr>in_use = False\<rparr>, effects = []\<rparr>"

text \<open>Whether a batch of ready sources is one the kernel can give, each source checked in
  the state its handler is called in.\<close>

fun rx_batch_ok :: "bool \<Rightarrow> rx_ready list \<Rightarrow> rx_state_t \<Rightarrow> bool" where
  "rx_batch_ok stats [] state = True"
| "rx_batch_ok stats (r # rs) state =
     (rx_kernel_ok stats state r \<and>
      (case rx_dispatch stats r state of
         Inl f \<Rightarrow> True
       | Inr (rc, state') \<Rightarrow> rc < 0 \<or> rx_batch_ok stats rs state'))"

text \<open>Two states of an engine with 4096-byte buffers used as examples below: after the
  first two hardware buffers were submitted, and after sixteen were submitted and none has
  completed, so that the free-list is empty.\<close>

definition rx_state_two_in_flight :: rx_state_t where
  "rx_state_two_in_flight =
     \<lparr>keep_running = True, usb_buffer_size = 4096, io_ctx = [0, 1],
      buffers = map Some [0 ..< 16],
      ring_buf_ctx = \<lparr>capacity = 16, usage = 14, head = 0, tail = 2\<rparr>,
      ring_buf_data = map Some [0 ..< 16],
      overflows = 0,
      heap = replicate 2 \<lparr>in_use = True\<rparr> @ replicate 14 \<lparr>in_use = False\<rparr>,
      effects = [Iio_buffer_refill, Io_submit (Some 0), Iio_buffer_refill, Io_submit (Some 1)]\<rparr>"

definition rx_state_all_in_flight :: rx_state_t where
  "rx_state_all_in_flight =
     \<lparr>keep_running = True, usb_buffer_size = 4096, io_ctx = [0 ..< 16],
      buffers = map Some [0 ..< 16],
      ring_buf_ctx = \<lparr>capacity = 16, usage = 0, head = 0, tail = 0\<rparr>,
      ring_buf_data = map Some [0 ..< 16],
      overflows = 0,
      heap = replicate 16 \<lparr>in_use = True\<rparr>,
      effects = concat (map (\<lambda>b. [Iio_buffer_refill, Io_submit (Some b)]) [0 ..< 16])\<rparr>"

section \<open>thread_write.c: the TX engine\<close>

text \<open>\<^verbatim>\<open>state_t\<close> of thread_write.c; the fields are those of the RX engine without the
  ring, and carry the prefix \<open>tx\<close> here.\<close>

record tx_state_t =
  tx_keep_running :: bool
  tx_usb_buffer_size :: size_t
  tx_io_ctx :: "nat list"
  tx_buffers :: "usb_buf_ptr list"
  tx_overflows :: uint32_t
  tx_heap :: "usb_buf_t list"
  tx_effects :: "effect list"

definition tx_state_zero :: "size_t \<Rightarrow> tx_state_t" where
  "tx_state_zero usb_size =
     \<lparr>tx_keep_running = False, tx_usb_buffer_size = usb_size, tx_io_ctx = [],
      tx_buffers = replicate NUM_BUFS None, tx_overflows = 0, tx_heap = [], tx_effects = []\<rparr>"

text \<open>\<^verbatim>\<open>alloc_usb_buffer\<close> of thread_write.c (the request is prepared as a read).\<close>

definition tx_alloc_usb_buffer :: "bool \<Rightarrow> tx_state_t \<Rightarrow> usb_buf_ptr \<times> tx_state_t" where
  "tx_alloc_usb_buffer malloc_ok s =
     (if \<not> malloc_ok then (None, s\<lparr>tx_effects := tx_effects s @ [Perror ''alloc_buffer failed'']\<rparr>)
      else (Some (length (tx_heap s)), s\<lparr>tx_heap := tx_heap s @ [\<lparr>in_use = False\<rparr>]\<rparr>))"

text \<open>The body of the allocation loop (lines 255 to 269). \<open>bufs\<close> is the local array of
  requests to submit, filled from the front. \<open>None\<close> is the \<^verbatim>\<open>return NULL\<close>.\<close>

definition tx_alloc_iter ::
    "(nat \<Rightarrow> bool) \<Rightarrow> nat \<Rightarrow> tx_state_t \<times> nat list \<Rightarrow> (tx_state_t \<times> nat list) option" where
  "tx_alloc_iter malloc_ok i sb =
     (case tx_alloc_usb_buffer (malloc_ok i) (fst sb) of
        (None, s1) \<Rightarrow> None
      | (Some b, s1) \<Rightarrow>
          (let s2 = s1\<lparr>tx_buffers := (tx_buffers s1)[i := Some b]\<rparr>;
               s3 = s2\<lparr>tx_heap := (tx_heap s2)[b := (tx_heap s2 ! b)\<lparr>in_use := True\<rparr>]\<rparr>
           in Some (s3, snd sb @ [b])))"

function tx_alloc_loop ::
    "(nat \<Rightarrow> bool) \<Rightarrow> nat \<Rightarrow> tx_state_t \<times> nat list \<Rightarrow> (tx_state_t \<times> nat list) option" where
  "tx_alloc_loop malloc_ok i sb =
     (if i < NUM_BUFS then
        (case tx_alloc_iter malloc_ok i sb of
           None \<Rightarrow> None
         | Some sb' \<Rightarrow> tx_alloc_loop malloc_ok (Suc i) sb')
      else Some sb)"
  by pat_completeness auto
termination
  by (relation "measure (\<lambda>(malloc_ok, i, sb). NUM_BUFS - i)") auto

declare tx_alloc_loop.simps [simp del]

text \<open>Lines 251 to 324: the allocation loop, then the one \<^verbatim>\<open>io_submit\<close> of all sixteen
  requests, whose result is \<open>submit_res\<close>; the kernel queues the first \<open>submit_res\<close>
  of them. Unless all were queued the thread returns.\<close>

definition tx_pool_init :: "(nat \<Rightarrow> bool) \<Rightarrow> size_t \<Rightarrow> int \<Rightarrow> tx_state_t option" where
  "tx_pool_init malloc_ok usb_size submit_res =
     (case tx_alloc_loop malloc_ok 0 (tx_state_zero usb_size, []) of
        None \<Rightarrow> None
      | Some (s, bufs) \<Rightarrow>
          (let s1 = s\<lparr>tx_effects := tx_effects s @ [Io_submit_all (map Some bufs)],
                      tx_io_ctx := take (nat submit_res) bufs\<rparr>
           in if int NUM_BUFS \<noteq> submit_res then None else Some s1))"

definition tx_handle_eventfd_thread :: "tx_state_t \<Rightarrow> int \<times> tx_state_t" where
  "tx_handle_eventfd_thread state = (0, state\<lparr>tx_keep_running := False\<rparr>)"

text \<open>The body of the loop over the completion events (lines 399 to 452). \<open>nbytes\<close> is
  the result of \<^verbatim>\<open>iio_buffer_push\<close> (called only for a full buffer) and \<open>submit_res\<close>
  the result of the \<^verbatim>\<open>io_submit\<close>. \<open>Some rc\<close> in the result is the \<^verbatim>\<open>return rc\<close>
  out of the loop, \<open>None\<close> the end of the body.\<close>

definition tx_completion ::
    "bool \<Rightarrow> io_event \<times> ssize_t \<times> int \<Rightarrow> tx_state_t \<Rightarrow> fault + int option \<times> tx_state_t" where
  "tx_completion stats e state =
     (let event = fst e; nbytes = fst (snd e); submit_res = snd (snd e) in
      case data event of
        None \<Rightarrow> Inl BadPointer
      | Some b \<Rightarrow>
          if \<not> b < length (tx_heap state) then Inl BadPointer
          else
            (let s1 = (if tx_usb_buffer_size state = res event
                       then (let s' = state\<lparr>tx_effects := tx_effects state @ [Iio_buffer_push]\<rparr>
                             in if nbytes \<noteq> tx_usb_buffer_size s'
                                then (if stats then s'\<lparr>tx_overflows := tx_overflows s' + 1\<rparr> else s')
                                else s')
                       else if - ESHUTDOWN \<noteq> res event
                       then state\<lparr>tx_effects := tx_effects state @ [Stderr_usb_error (res event) (res2 event)]\<rparr>
                       else state);
                 s2 = s1\<lparr>tx_effects := tx_effects s1 @ [Io_submit (Some b)],
                         tx_io_ctx := (if submit_res = 1 then tx_io_ctx s1 @ [b] else tx_io_ctx s1)\<rparr>
             in if 1 \<noteq> submit_res
                then Inr (Some (- 1),
                          s2\<lparr>tx_effects := tx_effects s2 @ [Perror ''Failed to submit usb read''],
                             tx_heap := (tx_heap s2)[b := (tx_heap s2 ! b)\<lparr>in_use := False\<rparr>]\<rparr>)
                else Inr (None, s2)))"

fun tx_completions ::
    "bool \<Rightarrow> (io_event \<times> ssize_t \<times> int) list \<Rightarrow> tx_state_t \<Rightarrow> fault + int \<times> tx_state_t" where
  "tx_completions stats [] state = Inr (0, state)"
| "tx_completions stats (e # es) state =
     (case tx_completion stats e state of
        Inl f \<Rightarrow> Inl f
      | Inr (Some rc, state') \<Rightarrow> Inr (rc, state')
      | Inr (None, state') \<Rightarrow> tx_completions stats es state')"

text \<open>\<^verbatim>\<open>handle_eventfd_aio\<close> of thread_write.c. Each entry of \<open>events\<close> is an event
  of the array that \<^verbatim>\<open>io_getevents\<close> filled, together with the results of the push and
  of the \<^verbatim>\<open>io_submit\<close> made while it is processed.\<close>

definition tx_handle_eventfd_aio ::
    "bool \<Rightarrow> int \<Rightarrow> int \<Rightarrow> (io_event \<times> ssize_t \<times> int) list \<Rightarrow> tx_state_t \<Rightarrow> fault + int \<times> tx_state_t" where
  "tx_handle_eventfd_aio stats read_ret ret events state =
     (if read_ret < 0
      then Inr (- 1, state\<lparr>tx_effects := tx_effects state @ [Perror ''Failed to read aio completion eventfd'']\<rparr>)
      else if ret < 0
      then Inr (- 1, state\<lparr>tx_effects := tx_effects state @ [Perror ''Failed to read completed io events'']\<rparr>)
      else tx_completions stats (take (nat ret) events)
             (state\<lparr>tx_io_ctx := io_getevents_reap (map fst (take (nat ret) events)) (tx_io_ctx state)\<rparr>))"

definition tx_handle_stats_timer :: "int \<Rightarrow> tx_state_t \<Rightarrow> int \<times> tx_state_t" where
  "tx_handle_stats_timer read_ret state =
     (if read_ret < 0 then (1, state\<lparr>tx_effects := tx_effects state @ [Perror ''Failed to read timerfd'']\<rparr>)
      else
        (let s1 = (if tx_overflows state > 0
                   then state\<lparr>tx_effects := tx_effects state @ [Printf_overflows (tx_overflows state)]\<rparr>
                   else state)
         in (0, s1\<lparr>tx_overflows := 0\<rparr>)))"

datatype tx_ready =
    Tx_quit_ready
  | Tx_aio_ready int int "(io_event \<times> ssize_t \<times> int) list"
  | Tx_stats_ready int

definition tx_dispatch :: "bool \<Rightarrow> tx_ready \<Rightarrow> tx_state_t \<Rightarrow> fault + int \<times> tx_state_t" where
  "tx_dispatch stats r state =
     (case r of
        Tx_quit_ready \<Rightarrow> Inr (tx_handle_eventfd_thread state)
      | Tx_aio_ready read_ret ret events \<Rightarrow> tx_handle_eventfd_aio stats read_ret ret events state
      | Tx_stats_ready read_ret \<Rightarrow> Inr (tx_handle_stats_timer read_ret state))"

text \<open>What the kernel guarantees, as for the RX engine.\<close>

definition tx_kernel_ok :: "bool \<Rightarrow> tx_state_t \<Rightarrow> tx_ready \<Rightarrow> bool" where
  "tx_kernel_ok stats state r =
     (case r of
        Tx_aio_ready read_ret ret events \<Rightarrow>
          (0 \<le> read_ret \<and> 0 \<le> ret \<longrightarrow>
             nat ret \<le> length events \<and>
             distinct (map (data \<circ> fst) (take (nat ret) events)) \<and>
             (\<forall>e \<in> set (take (nat ret) events).
                case data (fst e) of None \<Rightarrow> False | Some b \<Rightarrow> b \<in> set (tx_io_ctx state)))
      | Tx_stats_ready read_ret \<Rightarrow> stats
      | _ \<Rightarrow> True)"

text \<open>Modelled from the spec: \<^verbatim>\<open>EPOLL_LOOP_Run\<close>, as for the RX engine.\<close>

datatype tx_epoll = Tx_epoll_failed | Tx_epoll_ready "tx_ready list"

fun tx_run_handlers :: "bool \<Rightarrow> tx_ready list \<Rightarrow> tx_state_t \<Rightarrow> fault + int \<times> tx_state_t" where
  "tx_run_handlers stats [] state = Inr (0, state)"
| "tx_run_handlers stats (r # rs) state =
     (case tx_dispatch stats r state of
        Inl f \<Rightarrow> Inl f
      | Inr (rc, state') \<Rightarrow> if rc < 0 then Inr (- 1, state') else tx_run_handlers stats rs state')"

definition tx_EPOLL_LOOP_Run :: "bool \<Rightarrow> tx_epoll \<Rightarrow> tx_state_t \<Rightarrow> fault + int \<times> tx_state_t" where
  "tx_EPOLL_LOOP_Run stats ep state =
     (case ep of
        Tx_epoll_failed \<Rightarrow> Inr (- 1, state)
      | Tx_epoll_ready rs \<Rightarrow> tx_run_handlers stats rs state)"

fun tx_main_loop :: "bool \<Rightarrow> tx_epoll list \<Rightarrow> tx_state_t \<Rightarrow> fault + tx_state_t option" where
  "tx_main_loop stats [] state = (if tx_keep_running state then Inr None else Inr (Some state))"
| "tx_main_loop stats (ep # eps) state =
     (if tx_keep_running state then
        (case tx_EPOLL_LOOP_Run stats ep state of
           Inl f \<Rightarrow> Inl f
         | Inr (rc, state') \<Rightarrow> if rc < 0 then Inr (Some state') else tx_main_loop stats eps state')
      else Inr (Some state))"

text \<open>The shutdown sequence (lines 339 to 357).\<close>

definition tx_io_destroy :: "tx_state_t \<Rightarrow> tx_state_t" where
  "tx_io_destroy state = state\<lparr>tx_io_ctx := [], tx_effects := tx_effects state @ [Io_destroy]\<rparr>"

function tx_free_buffers :: "nat \<Rightarrow> tx_state_t \<Rightarrow> tx_state_t" where
  "tx_free_buffers i state =
     (if i < NUM_BUFS then
        tx_free_buffers (Suc i)
          (state\<lparr>tx_effects := tx_effects state @ [Free (tx_buffers state ! i)],
                 tx_buffers := (tx_buffers state)[i := None]\<rparr>)
      else state)"
  by pat_completeness auto
termination
  by (relation "measure (\<lambda>(i, state). NUM_BUFS - i)") auto

declare tx_free_buffers.simps [simp del]

definition tx_close_all :: "bool \<Rightarrow> tx_state_t \<Rightarrow> tx_state_t" where
  "tx_close_all stats state =
     (let s1 = (if stats then state\<lparr>tx_effects := tx_effects state @ [Close Stats_timerfd]\<rparr> else state);
          s2 = s1\<lparr>tx_effects := tx_effects s1 @ [Close Aio_eventfd]\<rparr>;
          s3 = s2\<lparr>tx_effects := tx_effects s2 @ [Iio_buffer_destroy]\<rparr>;
          s4 = s3\<lparr>tx_effects := tx_effects s3 @ [Iio_context_destroy]\<rparr>
      in s4\<lparr>tx_effects := tx_effects s4 @ [Close Epoll_fd]\<rparr>)"

definition tx_shutdown :: "bool \<Rightarrow> tx_state_t \<Rightarrow> tx_state_t" where
  "tx_shutdown stats state = tx_close_all stats (tx_free_buffers 0 (tx_io_destroy state))"

text \<open>\<^verbatim>\<open>THREAD_WRITE_Entrypoint\<close> from the set-up of the pool on.\<close>

definition THREAD_WRITE_Entrypoint ::
    "bool \<Rightarrow> (nat \<Rightarrow> bool) \<Rightarrow> size_t \<Rightarrow> int \<Rightarrow> tx_epoll list \<Rightarrow> fault + tx_state_t option" where
  "THREAD_WRITE_Entrypoint stats malloc_ok usb_size submit_res eps =
     (case tx_pool_init malloc_ok usb_size submit_res of
        None \<Rightarrow> Inr None
      | Some s \<Rightarrow>
          (case tx_main_loop stats eps (s\<lparr>tx_keep_running := True\<rparr>) of
             Inl f \<Rightarrow> Inl f
           | Inr None \<Rightarrow> Inr None
           | Inr (Some s') \<Rightarrow> Inr (Some (tx_shutdown stats s'))))"

text \<open>The states at a dispatch boundary while the TX engine is in its main loop.\<close>

inductive tx_running :: "bool \<Rightarrow> tx_state_t \<Rightarrow> bool" for stats :: bool where
  tx_enter: "tx_pool_init malloc_ok usb_size submit_res = Some s \<Longrightarrow>
             tx_running stats (s\<lparr>tx_keep_running := True\<rparr>)"
| tx_step: "tx_running stats s \<Longrightarrow> tx_kernel_ok stats s r \<Longrightarrow>
            tx_dispatch stats r s = Inr (rc, s') \<Longrightarrow> 0 \<le> rc \<Longrightarrow> tx_running stats s'"


text \<open>The invariant of the TX pool, also inside the completion loop, where \<open>R\<close> are the
  requests returned by \<^verbatim>\<open>io_getevents\<close> and not yet submitted again.\<close>

definition tx_part :: "nat list \<Rightarrow> tx_state_t \<Rightarrow> bool" where
  "tx_part R state \<longleftrightarrow>
     length (tx_heap state) = NUM_BUFS \<and>
     tx_buffers state = map Some [0 ..< NUM_BUFS] \<and>
     distinct (tx_io_ctx state @ R) \<and>
     set (tx_io_ctx state) \<union> set R = {0 ..< NUM_BUFS} \<and>
     (\<forall>b < NUM_BUFS. in_use (tx_heap state ! b))"

definition tx_pool_inv :: "nat \<Rightarrow> tx_state_t \<times> nat list \<Rightarrow> bool" where
  "tx_pool_inv i sb \<longleftrightarrow>
     snd sb = [0 ..< i] \<and>
     length (tx_heap (fst sb)) = i \<and>
     length (tx_buffers (fst sb)) = NUM_BUFS \<and>
     tx_io_ctx (fst sb) = [] \<and>
     (\<forall>k < i. tx_buffers (fst sb) ! k = Some k \<and> in_use (tx_heap (fst sb) ! k))"

text \<open>What the body of the TX completion loop adds to the trace when its
  \<^verbatim>\<open>io_submit\<close> succeeds: the push of a full buffer or the message for a bad one, then,
  in every case, the new submission of the same buffer.\<close>

definition tx_event_effects :: "size_t \<Rightarrow> io_event \<times> ssize_t \<times> int \<Rightarrow> effect list" where
  "tx_event_effects usb_size e =
     (if usb_size = res (fst e) then [Iio_buffer_push]
      else if res (fst e) \<noteq> - ESHUTDOWN then [Stderr_usb_error (res (fst e)) (res2 (fst e))]
      else []) @ [Io_submit (data (fst e))]"

text \<open>The state on entry to the TX main loop: all sixteen requests are with the kernel.\<close>

definition tx_state_ready :: "size_t \<Rightarrow> tx_state_t" where
  "tx_state_ready usb_size =
     \<lparr>tx_keep_running = True, tx_usb_buffer_size = usb_size, tx_io_ctx = [0 ..< 16],
      tx_buffers = map Some [0 ..< 16], tx_overflows = 0,
      tx_heap = replicate 16 \<lparr>in_use = True\<rparr>,
      tx_effects = [Io_submit_all (map Some [0 ..< 16])]\<rparr>"

fun tx_batch_ok :: "bool \<Rightarrow> tx_ready list \<Rightarrow> tx_state_t \<Rightarrow> bool" where
  "tx_batch_ok stats [] state = True"
| "tx_batch_ok stats (r # rs) state =
     (tx_kernel_ok stats state r \<and>
      (case tx_dispatch stats r state of
         Inl f \<Rightarrow> True
       | Inr (rc, state') \<Rightarrow> rc < 0 \<or> tx_batch_ok stats rs state'))"

section \<open>The order of effects in a trace\<close>

text \<open>The effects of the shutdown sequence, which no handler has.\<close>

fun is_teardown :: "effect \<Rightarrow> bool" where
  "is_teardown Io_destroy = True"
| "is_teardown (Free p) = True"
| "is_teardown (Close f) = True"
| "is_teardown Iio_buffer_destroy = True"
| "is_teardown Iio_context_destroy = True"
| "is_teardown e = False"

text \<open>\<open>a\<close> strictly before \<open>b\<close> in a trace: both happen, and no \<open>a\<close> happens at or
  after the first \<open>b\<close>.\<close>

definition strictly_before :: "'a \<Rightarrow> 'a \<Rightarrow> 'a list \<Rightarrow> bool" where
  "strictly_before a b xs \<longleftrightarrow>
     a \<in> set xs \<and> b \<in> set xs \<and> a \<notin> set (dropWhile (\<lambda>x. x \<noteq> b) xs)"

text \<open>The order the spec requires of a trace: the context is destroyed before any pool
  buffer is freed, every pool buffer is freed, and all of them before the hardware buffer
  and the hardware context are released.\<close>

definition shutdown_ordered :: "effect list \<Rightarrow> bool" where
  "shutdown_ordered tr \<longleftrightarrow>
     (\<forall>k \<in> set [0 ..< NUM_BUFS].
        strictly_before Io_destroy (Free (Some k)) tr \<and>
        strictly_before (Free (Some k)) Iio_buffer_destroy tr \<and>
        strictly_before (Free (Some k)) Iio_context_destroy tr)"

text \<open>The effects of one run of the shutdown sequence of a pool of sixteen buffers.\<close>

definition shutdown_sequence :: "bool \<Rightarrow> effect list" where
  "shutdown_sequence stats =
     Io_destroy # map (\<lambda>k. Free (Some k)) [0 ..< 16] @
     (if stats then [Close Stats_timerfd] else []) @
     [Close Aio_eventfd, Iio_buffer_destroy, Iio_context_destroy, Close Epoll_fd]"

text \<open>What every handler leaves as it is: the array of buffers is unchanged and the trace
  only grows, by effects that are not of the shutdown sequence.\<close>

definition rx_frame :: "rx_state_t \<Rightarrow> rx_state_t \<Rightarrow> bool" where
  "rx_frame s s' \<longleftrightarrow>
     buffers s' = buffers s \<and>
     (\<exists>added. effects s' = effects s @ added \<and> list_all (\<lambda>e. \<not> is_teardown e) added)"

definition tx_frame :: "tx_state_t \<Rightarrow> tx_state_t \<Rightarrow> bool" where
  "tx_frame s s' \<longleftrightarrow>
     tx_buffers s' = tx_buffers s \<and>
     (\<exists>added. tx_effects s' = tx_effects s @ added \<and> list_all (\<lambda>e. \<not> is_teardown e) added)"

section \<open>main.c: the control plane\<close>

unbundle bit_operations_syntax

text \<open>\<^verbatim>\<open>THREAD_READ_Args_t\<close> and \<^verbatim>\<open>THREAD_WRITE_Args_t\<close> have the same four fields, the
  second being \<^verbatim>\<open>output_fd\<close> for RX and \<^verbatim>\<open>input_fd\<close> for TX; one record stands for
  both.\<close>

record THREAD_Args_t =
  quit_event_fd :: int
  usb_fd :: int
  iio_channels :: uint32_t
  iio_buffer_size :: size_t

text \<open>An engine thread that was created and is not yet joined: its handle, its direction
  (\<open>True\<close> for TX, as the \<^verbatim>\<open>bool tx\<close> of the source) and the argument block it was
  started on, as it was at the creation.\<close>

record engine_thread =
  thread_id :: nat
  thread_tx :: bool
  thread_args :: THREAD_Args_t

text \<open>The outputs of the control thread, in order. Reads of ep0 and of the eventfds'
  results are inputs of the model, given in the records below; the \<^verbatim>\<open>DEBUG_PRINT\<close>
  traces are not modelled.\<close>

datatype main_effect =
    Eventfd_write bool
  | Pthread_join nat
  | Eventfd_read bool
  | Sigmask_all
  | Sigmask_restore
  | Pthread_create bool THREAD_Args_t
  | Ep0_write_null
  | Printf string
  | Main_perror string

text \<open>\<^verbatim>\<open>state_t\<close> of main.c, without the file descriptors. \<open>threads\<close> are the engine
  threads of the process and \<open>next_thread\<close> the handle the next \<^verbatim>\<open>pthread_create\<close>
  gives.\<close>

record main_state_t =
  read_started :: bool
  write_started :: bool
  read_args :: THREAD_Args_t
  write_args :: THREAD_Args_t
  config_enabled :: bool
  thread_read :: nat
  thread_write :: nat
  threads :: "engine_thread list"
  next_thread :: nat
  main_effects :: "main_effect list"

text \<open>The results of the system calls of one \<^verbatim>\<open>stop_thread\<close> and of one
  \<^verbatim>\<open>start_thread\<close>.\<close>

record stop_results =
  eventfd_write_ret :: int
  eventfd_read_ret :: int

record start_results =
  sigmask_ret :: int
  pthread_create_ret :: int
  sigrestore_ret :: int

text \<open>\<^verbatim>\<open>stop_thread\<close>. \<^verbatim>\<open>pthread_join\<close> returns when the engine thread has ended, which
  it does once the eventfd is written (the engine's loop sees it and runs its shutdown
  sequence); the thread then is no longer among the threads of the process.\<close>

definition stop_thread :: "stop_results \<Rightarrow> main_state_t \<Rightarrow> bool \<Rightarrow> bool \<times> main_state_t" where
  "stop_thread env state tx =
     (if tx \<and> write_started state then
        (let s1 = state\<lparr>main_effects := main_effects state @ [Eventfd_write True]\<rparr> in
         if eventfd_write_ret env < 0
         then (False, s1\<lparr>main_effects := main_effects s1 @ [Main_perror ''Failed to write to write thread eventfd'']\<rparr>)
         else
           (let s2 = s1\<lparr>main_effects := main_effects s1 @ [Pthread_join (thread_write s1)],
                        threads := filter (\<lambda>t. thread_id t \<noteq> thread_write s1) (threads s1)\<rparr>;
                s3 = s2\<lparr>main_effects := main_effects s2 @ [Eventfd_read True]\<rparr>
            in if eventfd_read_ret env < 0
               then (False, s3\<lparr>main_effects := main_effects s3 @ [Main_perror ''Failed to read from write thread eventfd'']\<rparr>)
               else (True, s3\<lparr>write_started := False\<rparr>)))
      else if \<not> tx \<and> read_started state then
        (let s1 = state\<lparr>main_effects := main_effects state @ [Eventfd_write False]\<rparr> in
         if eventfd_write_ret env < 0
         then (False, s1\<lparr>main_effects := main_effects s1 @ [Main_perror ''Failed to write to read thread eventfd'']\<rparr>)
         else
           (let s2 = s1\<lparr>main_effects := main_effects s1 @ [Pthread_join (thread_read s1)],
                        threads := filter (\<lambda>t. thread_id t \<noteq> thread_read s1) (threads s1)\<rparr>;
                s3 = s2\<lparr>main_effects := main_effects s2 @ [Eventfd_read False]\<rparr>
            in if eventfd_read_ret env < 0
               then (False, s3\<lparr>main_effects := main_effects s3 @ [Main_perror ''Failed to read from read thread eventfd'']\<rparr>)
               else (True, s3\<lparr>read_started := False\<rparr>)))
      else (True, state))"

text \<open>The two calls of \<^verbatim>\<open>pthread_create\<close> in \<^verbatim>\<open>start_thread\<close>: on success (result 0)
  the handle is stored and the new thread runs on the argument block of its direction.\<close>

definition create_write_thread :: "int \<Rightarrow> main_state_t \<Rightarrow> main_state_t" where
  "create_write_thread ret state =
     (let s1 = state\<lparr>main_effects := main_effects state @ [Pthread_create True (write_args state)]\<rparr> in
      if ret = 0
      then s1\<lparr>thread_write := next_thread s1,
              threads := threads s1 @ [\<lparr>thread_id = next_thread s1, thread_tx = True,
                                        thread_args = write_args s1\<rparr>],
              next_thread := Suc (next_thread s1),
              write_started := True\<rparr>
      else s1\<lparr>write_started := False\<rparr>)"

definition create_read_thread :: "int \<Rightarrow> main_state_t \<Rightarrow> main_state_t" where
  "create_read_thread ret state =
     (let s1 = state\<lparr>main_effects := main_effects state @ [Pthread_create False (read_args state)]\<rparr> in
      if ret = 0
      then s1\<lparr>thread_read := next_thread s1,
              threads := threads s1 @ [\<lparr>thread_id = next_thread s1, thread_tx = False,
                                        thread_args = read_args s1\<rparr>],
              next_thread := Suc (next_thread s1),
              read_started := True\<rparr>
      else s1\<lparr>read_started := False\<rparr>)"

text \<open>\<^verbatim>\<open>start_thread\<close>.\<close>

definition start_thread :: "start_results \<Rightarrow> main_state_t \<Rightarrow> bool \<Rightarrow> bool \<times> main_state_t" where
  "start_thread env state tx =
     (let s1 = state\<lparr>main_effects := main_effects state @ [Sigmask_all]\<rparr> in
      if sigmask_ret env < 0
      then (False, s1\<lparr>main_effects := main_effects s1 @ [Main_perror ''Failed to mask signals'']\<rparr>)
      else
        (let created =
               (if tx \<and> \<not> write_started s1 then
                  (let s2 = create_write_thread (pthread_create_ret env) s1 in
                   if \<not> write_started s2
                   then Inl (s2\<lparr>main_effects := main_effects s2 @ [Main_perror ''Failed to start write thread'']\<rparr>)
                   else Inr s2)
                else if \<not> tx \<and> \<not> read_started s1 then
                  (let s2 = create_read_thread (pthread_create_ret env) s1 in
                   if \<not> read_started s2
                   then Inl (s2\<lparr>main_effects := main_effects s2 @ [Main_perror ''Failed to start read thread'']\<rparr>)
                   else Inr s2)
                else Inr s1)
         in case created of
              Inl s \<Rightarrow> (False, s)
            | Inr s3 \<Rightarrow>
                (let s4 = s3\<lparr>main_effects := main_effects s3 @ [Sigmask_restore]\<rparr> in
                 if sigrestore_ret env < 0
                 then (False, s4\<lparr>main_effects := main_effects s4 @ [Main_perror ''Failed to unmask signals'']\<rparr>)
                 else (True, s4))))"

text \<open>The event read from ep0. The types and \<^verbatim>\<open>USB_DIR_IN\<close> are those of the Linux
  headers \<^verbatim>\<open>linux/usb/functionfs.h\<close> and \<^verbatim>\<open>linux/usb/ch9.h\<close>; the packed event is
  12 bytes long.\<close>

datatype usb_functionfs_event_type =
    FUNCTIONFS_BIND | FUNCTIONFS_UNBIND | FUNCTIONFS_ENABLE | FUNCTIONFS_DISABLE
  | FUNCTIONFS_SETUP | FUNCTIONFS_SUSPEND | FUNCTIONFS_RESUME | FUNCTIONFS_other

record usb_ctrlrequest =
  bRequestType :: "8 word"
  bRequest :: "8 word"
  wValue :: "16 word"
  wIndex :: "16 word"
  wLength :: "16 word"

definition USB_DIR_IN :: "8 word" where
  "USB_DIR_IN = 0x80"

definition sizeof_event :: int where
  "sizeof_event = 12"

definition SDR_USB_GADGET_COMMAND_START :: "8 word" where
  "SDR_USB_GADGET_COMMAND_START = 0x10"

definition SDR_USB_GADGET_COMMAND_STOP :: "8 word" where
  "SDR_USB_GADGET_COMMAND_STOP = 0x11"

definition SDR_USB_GADGET_COMMAND_TARGET_RX :: "16 word" where
  "SDR_USB_GADGET_COMMAND_TARGET_RX = 0x00"

definition SDR_USB_GADGET_COMMAND_TARGET_TX :: "16 word" where
  "SDR_USB_GADGET_COMMAND_TARGET_TX = 0x01"

text \<open>\<^verbatim>\<open>cmdStartRequest_t\<close> is packed: two \<^verbatim>\<open>uint32_t\<close>, 8 bytes, read from the start of
  the 64-byte buffer in the byte order of the target, little-endian.\<close>

definition sizeof_cmdStartRequest_t :: int where
  "sizeof_cmdStartRequest_t = 8"

definition le32 :: "8 word list \<Rightarrow> nat \<Rightarrow> uint32_t" where
  "le32 bytes off = word_rcat (rev (take 4 (drop off bytes)))"

definition enabled_channels :: "8 word list \<Rightarrow> uint32_t" where
  "enabled_channels control_in_data = le32 control_in_data 0"

definition buffer_size :: "8 word list \<Rightarrow> uint32_t" where
  "buffer_size control_in_data = le32 control_in_data 4"

text \<open>What one call of \<^verbatim>\<open>handle_ep0\<close> reads and what its system calls return:
  the result of the read of the event, then the event (its type and its control request,
  the member of the union \<open>u\<close> in the source, \<open>ctrl\<close> here); the result of the zero-length write;
  the result of the read of the request's data and the buffer after it; the results for a
  \<^verbatim>\<open>stop_thread\<close> of either direction and for the \<^verbatim>\<open>start_thread\<close>.\<close>

record ep0_input =
  event_read_ret :: int
  event_type :: usb_functionfs_event_type
  ctrl :: usb_ctrlrequest
  null_write_ret :: int
  read_count :: int
  control_in_data :: "8 word list"
  stop_env :: "bool \<Rightarrow> stop_results"
  start_env :: start_results

text \<open>The \<^verbatim>\<open>START\<close> and \<^verbatim>\<open>STOP\<close> cases of the inner switch.\<close>

definition command_start :: "ep0_input \<Rightarrow> main_state_t \<Rightarrow> main_state_t" where
  "command_start inp state =
     (if read_count inp \<noteq> sizeof_cmdStartRequest_t
      then state\<lparr>main_effects := main_effects state @ [Printf ''Bad start request, incorrect data size'']\<rparr>
      else
        (let tx = (SDR_USB_GADGET_COMMAND_TARGET_TX = wValue (ctrl inp));
             s1 = snd (stop_thread (stop_env inp tx) state tx);
             s2 = (if tx
                   then s1\<lparr>write_args := (write_args s1)
                             \<lparr>iio_channels := enabled_channels (control_in_data inp),
                              iio_buffer_size := buffer_size (control_in_data inp)\<rparr>\<rparr>
                   else s1\<lparr>read_args := (read_args s1)
                             \<lparr>iio_channels := enabled_channels (control_in_data inp),
                              iio_buffer_size := buffer_size (control_in_data inp)\<rparr>\<rparr>)
         in snd (start_thread (start_env inp) s2 tx)))"

definition command_stop :: "ep0_input \<Rightarrow> main_state_t \<Rightarrow> main_state_t" where
  "command_stop inp state =
     (let tx = (0 \<noteq> wValue (ctrl inp))
      in snd (stop_thread (stop_env inp tx) state tx))"

text \<open>\<^verbatim>\<open>handle_ep0\<close>.\<close>

definition handle_ep0 :: "ep0_input \<Rightarrow> main_state_t \<Rightarrow> int \<times> main_state_t" where
  "handle_ep0 inp state =
     (if sizeof_event \<noteq> event_read_ret inp
      then (- 1, state\<lparr>main_effects := main_effects state @ [Main_perror ''Failed to read event from ep0'']\<rparr>)
      else case event_type inp of
        FUNCTIONFS_SETUP \<Rightarrow>
          (if bRequestType (ctrl inp) AND USB_DIR_IN \<noteq> 0 then
             (let s1 = state\<lparr>main_effects := main_effects state @ [Ep0_write_null]\<rparr> in
              if null_write_ret inp < 0
              then (- 1, s1\<lparr>main_effects := main_effects s1 @ [Main_perror ''Failed to write packet to host'']\<rparr>)
              else (0, s1))
           else
             (if read_count inp < 0
              then (- 1, state\<lparr>main_effects := main_effects state @ [Main_perror ''Failed to read packet from host'']\<rparr>)
              else if bRequest (ctrl inp) = SDR_USB_GADGET_COMMAND_START then (0, command_start inp state)
              else if bRequest (ctrl inp) = SDR_USB_GADGET_COMMAND_STOP then (0, command_stop inp state)
              else (0, state)))
      | FUNCTIONFS_DISABLE \<Rightarrow>
          (if config_enabled state then
             (let (ok1, s1) = stop_thread (stop_env inp False) state False in
              if \<not> ok1 then (- 1, s1)
              else
                (let (ok2, s2) = stop_thread (stop_env inp True) s1 True in
                 if \<not> ok2 then (- 1, s2)
                 else (0, s2\<lparr>config_enabled := False\<rparr>)))
           else (0, state\<lparr>config_enabled := False\<rparr>))
      | FUNCTIONFS_ENABLE \<Rightarrow> (0, state\<lparr>config_enabled := True\<rparr>)
      | _ \<Rightarrow> (0, state))"

text \<open>The state of \<^verbatim>\<open>main\<close> when it enters its loop: zeroed, with the file descriptors
  stored in the two argument blocks; no engine thread exists.\<close>

definition main_state_init :: "int \<Rightarrow> int \<Rightarrow> int \<Rightarrow> int \<Rightarrow> main_state_t" where
  "main_state_init read_efd write_efd ep1 ep2 =
     \<lparr>read_started = False, write_started = False,
      read_args = \<lparr>quit_event_fd = read_efd, usb_fd = ep1, iio_channels = 0, iio_buffer_size = 0\<rparr>,
      write_args = \<lparr>quit_event_fd = write_efd, usb_fd = ep2, iio_channels = 0, iio_buffer_size = 0\<rparr>,
      config_enabled = False, thread_read = 0, thread_write = 0,
      threads = [], next_thread = 0, main_effects = []\<rparr>"

text \<open>The states of the control thread: the initial one and what \<^verbatim>\<open>handle_ep0\<close> makes
  of a state, whatever it reads and whatever the system calls return.\<close>

inductive main_reach :: "main_state_t \<Rightarrow> bool" where
  main_start: "main_reach (main_state_init read_efd write_efd ep1 ep2)"
| main_step: "main_reach s \<Longrightarrow> main_reach (snd (handle_ep0 inp s))"

text \<open>Selectors by direction, and the engine threads of a direction.\<close>

definition dir_started :: "bool \<Rightarrow> main_state_t \<Rightarrow> bool" where
  "dir_started tx state = (if tx then write_started state else read_started state)"

definition dir_args :: "bool \<Rightarrow> main_state_t \<Rightarrow> THREAD_Args_t" where
  "dir_args tx state = (if tx then write_args state else read_args state)"

definition dir_thread :: "bool \<Rightarrow> main_state_t \<Rightarrow> nat" where
  "dir_thread tx state = (if tx then thread_write state else thread_read state)"

definition engines :: "bool \<Rightarrow> main_state_t \<Rightarrow> engine_thread list" where
  "engines tx state = filter (\<lambda>t. thread_tx t = tx) (threads state)"

text \<open>The bookkeeping of the control thread agrees with the threads of the process: handles
  are not reused, and an engine thread of a direction exists only while the flag of the
  direction is set, under the handle stored for the direction.\<close>

definition main_inv :: "main_state_t \<Rightarrow> bool" where
  "main_inv state \<longleftrightarrow>
     distinct (map thread_id (threads state)) \<and>
     (\<forall>t \<in> set (threads state).
        thread_id t < next_thread state \<and>
        dir_started (thread_tx t) state \<and>
        thread_id t = dir_thread (thread_tx t) state)"














section \<open>thread_read.c: the set-up of the RX engine thread\<close>

text \<open>What the calls of the set-up of \<^verbatim>\<open>THREAD_READ_Entrypoint\<close> (lines 128 to 339)
  return: the results of the system calls; for the calls of libiio whether an object is
  returned (\<open>True\<close>) or \<^verbatim>\<open>NULL\<close>, for \<^verbatim>\<open>iio_device_get_channel\<close> by the index of the
  channel; the result of \<^verbatim>\<open>iio_buffer_step\<close>; whether the \<^verbatim>\<open>malloc\<close> of the buffer of
  each index returns memory. The three results of the timer are used only in a build with
  \<^verbatim>\<open>GENERATE_STATS\<close>.\<close>

record engine_env =
  epoll_create1_ret :: int
  epoll_ctl_quit_ret :: int
  iio_create_local_context_ok :: bool
  iio_context_find_device_ok :: bool
  iio_device_get_channel_ok :: "nat \<Rightarrow> bool"
  iio_device_create_buffer_ok :: bool
  epoll_ctl_buffer_ret :: int
  iio_buffer_step_ret :: size_t
  io_setup_ret :: int
  eventfd_ret :: int
  epoll_ctl_aio_ret :: int
  malloc_results :: "nat \<Rightarrow> bool"
  timerfd_create_ret :: int
  timerfd_settime_ret :: int
  epoll_ctl_timer_ret :: int

text \<open>The \<^verbatim>\<open>return NULL\<close> statements of the set-up, in the order of the source, each
  named after the call that failed; \<open>Exit_find_iio_chan\<close> carries the index of the channel
  and \<open>Exit_create_buffer\<close> the number of samples, which the messages print.\<close>

datatype setup_exit =
    Exit_epoll_create
  | Exit_register_quit_eventfd
  | Exit_open_iio
  | Exit_open_iio_dev
  | Exit_find_iio_chan nat
  | Exit_create_buffer size_t
  | Exit_register_iio_buffer
  | Exit_setup_aio
  | Exit_open_eventfd
  | Exit_register_aio_eventfd
  | Exit_alloc_usb_buffer
  | Exit_open_timerfd
  | Exit_set_timerfd
  | Exit_register_timer

text \<open>The loop that enables the required channels (lines 178 to 195), over the indices
  \<open>js\<close>: for each index whose bit is set in the mask the channel is retrieved, and the
  thread returns when there is none. The result is the index the thread returned at, or
  \<open>None\<close> when the loop ends.\<close>

fun enable_channels :: "(nat \<Rightarrow> bool) \<Rightarrow> uint32_t \<Rightarrow> nat list \<Rightarrow> nat option" where
  "enable_channels get_channel_ok channels [] = None"
| "enable_channels get_channel_ok channels (i # js) =
     (if channels AND push_bit i 1 \<noteq> 0
      then (if \<not> get_channel_ok i then Some i
            else enable_channels get_channel_ok channels js)
      else enable_channels get_channel_ok channels js)"

text \<open>\<^verbatim>\<open>THREAD_READ_Entrypoint\<close> up to the entry of its main loop. The result is
  \<open>Inr (Inl x)\<close> when the thread returns at the exit \<open>x\<close> without having entered the loop,
  and \<open>Inr (Inr state)\<close> with the state the loop is entered in. The calls whose result the
  source does not use (the thread's name, priority and affinity, the disabling of all
  channels) are left out; the size of a USB buffer is the product of the step of the
  hardware buffer and the number of samples, in \<^verbatim>\<open>size_t\<close>.\<close>

definition THREAD_READ_setup ::
    "bool \<Rightarrow> THREAD_Args_t \<Rightarrow> engine_env \<Rightarrow> fault + setup_exit + rx_state_t" where
  "THREAD_READ_setup stats args env =
     (if epoll_create1_ret env < 0 then Inr (Inl Exit_epoll_create)
      else if epoll_ctl_quit_ret env < 0 then Inr (Inl Exit_register_quit_eventfd)
      else if \<not> iio_create_local_context_ok env then Inr (Inl Exit_open_iio)
      else if \<not> iio_context_find_device_ok env then Inr (Inl Exit_open_iio_dev)
      else case enable_channels (iio_device_get_channel_ok env) (iio_channels args) [0 ..< 32] of
        Some i \<Rightarrow> Inr (Inl (Exit_find_iio_chan i))
      | None \<Rightarrow>
          if \<not> iio_device_create_buffer_ok env
          then Inr (Inl (Exit_create_buffer (iio_buffer_size args)))
          else if epoll_ctl_buffer_ret env < 0 then Inr (Inl Exit_register_iio_buffer)
          else if io_setup_ret env < 0 then Inr (Inl Exit_setup_aio)
          else if eventfd_ret env < 0 then Inr (Inl Exit_open_eventfd)
          else if epoll_ctl_aio_ret env < 0 then Inr (Inl Exit_register_aio_eventfd)
          else case rx_pool_init (malloc_results env)
                      (iio_buffer_step_ret env * iio_buffer_size args) of
            Inl f \<Rightarrow> Inl f
          | Inr None \<Rightarrow> Inr (Inl Exit_alloc_usb_buffer)
          | Inr (Some state) \<Rightarrow>
              if stats \<and> timerfd_create_ret env < 0 then Inr (Inl Exit_open_timerfd)
              else if stats \<and> timerfd_settime_ret env < 0 then Inr (Inl Exit_set_timerfd)
              else if stats \<and> epoll_ctl_timer_ret env < 0 then Inr (Inl Exit_register_timer)
              else Inr (Inr (state\<lparr>keep_running := True\<rparr>)))"




section \<open>Properties of the free-list\<close>

lemma unat_inc_below:
  fixes x c :: uint32_t
  assumes "unat x < unat c"
  shows "unat (x + 1) = Suc (unat x)"
proof -
  have "unat c < 2 ^ 32" using unsigned_less [of c] by simp
  with assms have "Suc (unat x) < 2 ^ 32" by simp
  then show ?thesis by (simp add: unat_word_ariths)
qed

lemma rb_inv_Init: "rb_inv (RING_BUFFER_Init cap)"
  by (simp add: rb_inv_def RING_BUFFER_Init_def unat_gt_0)

lemma Put_full: "usage ctx = capacity ctx \<Longrightarrow> RING_BUFFER_Put ctx = (RING_BUFFER_NO_INDEX, ctx)"
  by (simp add: RING_BUFFER_Put_def)

lemma Get_empty: "usage ctx = 0 \<Longrightarrow> RING_BUFFER_Get ctx = (RING_BUFFER_NO_INDEX, ctx)"
  by (simp add: RING_BUFFER_Get_def)

lemma Put_ok:
  assumes "rb_inv ctx" "unat (usage ctx) < unat (capacity ctx)"
  shows "fst (RING_BUFFER_Put ctx) = head ctx"
    and "capacity (snd (RING_BUFFER_Put ctx)) = capacity ctx"
    and "tail (snd (RING_BUFFER_Put ctx)) = tail ctx"
    and "unat (usage (snd (RING_BUFFER_Put ctx))) = Suc (unat (usage ctx))"
    and "unat (head (snd (RING_BUFFER_Put ctx))) = Suc (unat (head ctx)) mod unat (capacity ctx)"
proof -
  from assms have lt: "usage ctx < capacity ctx" by (simp add: word_less_nat_alt)
  from assms have ne: "capacity ctx \<noteq> 0" by auto
  from assms ne have h: "unat (head ctx) < unat (capacity ctx)" by (simp add: rb_inv_def)
  have h1: "unat (head ctx + 1) = Suc (unat (head ctx))" by (rule unat_inc_below [OF h])
  show "fst (RING_BUFFER_Put ctx) = head ctx" using lt by (simp add: RING_BUFFER_Put_def Let_def)
  show "capacity (snd (RING_BUFFER_Put ctx)) = capacity ctx" using lt by (simp add: RING_BUFFER_Put_def Let_def)
  show "tail (snd (RING_BUFFER_Put ctx)) = tail ctx" using lt by (simp add: RING_BUFFER_Put_def Let_def)
  show "unat (usage (snd (RING_BUFFER_Put ctx))) = Suc (unat (usage ctx))"
    using lt unat_inc_below [OF assms(2)] by (simp add: RING_BUFFER_Put_def Let_def)
  show "unat (head (snd (RING_BUFFER_Put ctx))) = Suc (unat (head ctx)) mod unat (capacity ctx)"
  proof (cases "head ctx + 1 = capacity ctx")
    case True
    then have "Suc (unat (head ctx)) = unat (capacity ctx)" using h1 by simp
    then show ?thesis using lt True by (simp add: RING_BUFFER_Put_def Let_def)
  next
    case False
    then have "Suc (unat (head ctx)) \<noteq> unat (capacity ctx)" using h1 by (simp add: word_unat_eq_iff)
    with h have "Suc (unat (head ctx)) < unat (capacity ctx)" by simp
    then show ?thesis using lt False h1 by (simp add: RING_BUFFER_Put_def Let_def)
  qed
qed

lemma Get_ok:
  assumes "rb_inv ctx" "usage ctx \<noteq> 0"
  shows "fst (RING_BUFFER_Get ctx) = tail ctx"
    and "capacity (snd (RING_BUFFER_Get ctx)) = capacity ctx"
    and "head (snd (RING_BUFFER_Get ctx)) = head ctx"
    and "Suc (unat (usage (snd (RING_BUFFER_Get ctx)))) = unat (usage ctx)"
    and "unat (tail (snd (RING_BUFFER_Get ctx))) = Suc (unat (tail ctx)) mod unat (capacity ctx)"
proof -
  from assms have gt: "0 < usage ctx" by (simp add: word_greater_zero_iff)
  then have ugt: "0 < unat (usage ctx)" by (simp add: word_less_nat_alt)
  with assms have ne: "capacity ctx \<noteq> 0" by (auto simp: rb_inv_def)
  from assms ne have h: "unat (tail ctx) < unat (capacity ctx)" by (simp add: rb_inv_def)
  have h1: "unat (tail ctx + 1) = Suc (unat (tail ctx))" by (rule unat_inc_below [OF h])
  show "fst (RING_BUFFER_Get ctx) = tail ctx" using gt by (simp add: RING_BUFFER_Get_def Let_def)
  show "capacity (snd (RING_BUFFER_Get ctx)) = capacity ctx" using gt by (simp add: RING_BUFFER_Get_def Let_def)
  show "head (snd (RING_BUFFER_Get ctx)) = head ctx" using gt by (simp add: RING_BUFFER_Get_def Let_def)
  show "Suc (unat (usage (snd (RING_BUFFER_Get ctx)))) = unat (usage ctx)"
    using gt ugt by (simp add: RING_BUFFER_Get_def Let_def unat_minus_one assms(2))
  show "unat (tail (snd (RING_BUFFER_Get ctx))) = Suc (unat (tail ctx)) mod unat (capacity ctx)"
  proof (cases "tail ctx + 1 = capacity ctx")
    case True
    then have "Suc (unat (tail ctx)) = unat (capacity ctx)" using h1 by simp
    then show ?thesis using gt True by (simp add: RING_BUFFER_Get_def Let_def)
  next
    case False
    then have "Suc (unat (tail ctx)) \<noteq> unat (capacity ctx)" using h1 by (simp add: word_unat_eq_iff)
    with h have "Suc (unat (tail ctx)) < unat (capacity ctx)" by simp
    then show ?thesis using gt False h1 by (simp add: RING_BUFFER_Get_def Let_def)
  qed
qed

lemma rb_inv_Put: assumes "rb_inv ctx" shows "rb_inv (snd (RING_BUFFER_Put ctx))"
proof (cases "unat (usage ctx) < unat (capacity ctx)")
  case True
  note ok = Put_ok [OF assms True]
  from True have ne: "capacity ctx \<noteq> 0" by auto
  from assms ne have t: "unat (tail ctx) < unat (capacity ctx)"
    and h: "unat (head ctx) = (unat (tail ctx) + unat (usage ctx)) mod unat (capacity ctx)"
    by (simp_all add: rb_inv_def)
  have "Suc (unat (head ctx)) mod unat (capacity ctx)
      = (unat (tail ctx) + Suc (unat (usage ctx))) mod unat (capacity ctx)"
    using h by (simp add: mod_Suc_eq)
  moreover have "Suc (unat (head ctx)) mod unat (capacity ctx) < unat (capacity ctx)"
    using True by simp
  ultimately show ?thesis using True ne t ok by (simp add: rb_inv_def)
next
  case False
  then have "\<not> usage ctx < capacity ctx" by (simp add: word_less_nat_alt)
  then show ?thesis using assms by (simp add: RING_BUFFER_Put_def)
qed

lemma rb_inv_Get: assumes "rb_inv ctx" shows "rb_inv (snd (RING_BUFFER_Get ctx))"
proof (cases "usage ctx = 0")
  case True
  then show ?thesis using assms by (simp add: RING_BUFFER_Get_def)
next
  case False
  note ok = Get_ok [OF assms False]
  from False have ugt: "0 < unat (usage ctx)" by (simp add: unat_gt_0)
  with assms have ne: "capacity ctx \<noteq> 0" by (auto simp: rb_inv_def)
  from assms ne have hd: "unat (head ctx) < unat (capacity ctx)"
    and h: "unat (head ctx) = (unat (tail ctx) + unat (usage ctx)) mod unat (capacity ctx)"
    and u: "unat (usage ctx) \<le> unat (capacity ctx)"
    by (simp_all add: rb_inv_def)
  let ?u' = "unat (usage (snd (RING_BUFFER_Get ctx)))"
  have u': "unat (usage ctx) = Suc ?u'" using ok(4) by simp
  have "(Suc (unat (tail ctx)) mod unat (capacity ctx) + ?u') mod unat (capacity ctx)
      = (unat (tail ctx) + Suc ?u') mod unat (capacity ctx)"
    by (simp add: mod_add_left_eq)
  then have "unat (head ctx) = (Suc (unat (tail ctx)) mod unat (capacity ctx) + ?u') mod unat (capacity ctx)"
    using h u' by simp
  moreover have "Suc (unat (tail ctx)) mod unat (capacity ctx) < unat (capacity ctx)"
    using hd by simp
  moreover have "?u' \<le> unat (capacity ctx)" using u u' by simp
  ultimately show ?thesis using ne hd ok(2,3,5) by (simp add: rb_inv_def)
qed

lemma rb_reach_inv: "rb_reach cap ctx \<Longrightarrow> rb_inv ctx \<and> capacity ctx = cap"
proof (induction rule: rb_reach.induct)
  case rb_init
  show ?case by (simp add: rb_inv_Init) (simp add: RING_BUFFER_Init_def)
next
  case (rb_put ctx)
  then show ?case by (simp add: rb_inv_Put) (simp add: RING_BUFFER_Put_def Let_def)
next
  case (rb_get ctx)
  then show ?case by (simp add: rb_inv_Get) (simp add: RING_BUFFER_Get_def Let_def)
qed

lemma below_capacity_not_NO_INDEX:
  fixes x c :: uint32_t
  assumes "unat x < unat c" shows "x \<noteq> RING_BUFFER_NO_INDEX"
proof
  assume "x = RING_BUFFER_NO_INDEX"
  then have "unat x = 4294967295" by (simp add: RING_BUFFER_NO_INDEX_def)
  moreover have "unat c < 2 ^ 32" using unsigned_less [of c] by simp
  ultimately show False using assms by simp
qed

text \<open>Claim C8. The free-list fails closed. In every context reachable from
  \<^verbatim>\<open>RING_BUFFER_Init\<close> by puts and gets the capacity is the one given at init; a get on
  an empty list (usage 0) and a put on a full list (usage equal to the capacity) return
  \<^verbatim>\<open>RING_BUFFER_NO_INDEX\<close> and leave the context as it was; and the sentinel is
  returned in those two situations only, so it is never mistaken for a slot index.\<close>

theorem free_list_fails_closed:
  assumes "rb_reach cap ctx"
  shows "capacity ctx = cap \<and>
         (usage ctx = 0 \<longrightarrow> RING_BUFFER_Get ctx = (RING_BUFFER_NO_INDEX, ctx)) \<and>
         (usage ctx = capacity ctx \<longrightarrow> RING_BUFFER_Put ctx = (RING_BUFFER_NO_INDEX, ctx)) \<and>
         (fst (RING_BUFFER_Get ctx) = RING_BUFFER_NO_INDEX \<longleftrightarrow> usage ctx = 0) \<and>
         (fst (RING_BUFFER_Put ctx) = RING_BUFFER_NO_INDEX \<longleftrightarrow> usage ctx = capacity ctx)"
proof -
  from assms have inv: "rb_inv ctx" and cap: "capacity ctx = cap"
    using rb_reach_inv by blast+
  have g: "fst (RING_BUFFER_Get ctx) \<noteq> RING_BUFFER_NO_INDEX" if "usage ctx \<noteq> 0"
  proof -
    from that have "0 < unat (usage ctx)" by (simp add: unat_gt_0)
    with inv have "capacity ctx \<noteq> 0" by (auto simp: rb_inv_def)
    with inv have "unat (tail ctx) < unat (capacity ctx)" by (simp add: rb_inv_def)
    then show ?thesis using Get_ok(1) [OF inv that] below_capacity_not_NO_INDEX by simp
  qed
  have p: "fst (RING_BUFFER_Put ctx) \<noteq> RING_BUFFER_NO_INDEX" if "usage ctx \<noteq> capacity ctx"
  proof -
    from inv have "unat (usage ctx) \<le> unat (capacity ctx)" by (simp add: rb_inv_def)
    with that have lt: "unat (usage ctx) < unat (capacity ctx)"
      by (simp add: word_unat_eq_iff)
    then have "capacity ctx \<noteq> 0" by auto
    with inv have "unat (head ctx) < unat (capacity ctx)" by (simp add: rb_inv_def)
    then show ?thesis using Put_ok(1) [OF inv lt] below_capacity_not_NO_INDEX by simp
  qed
  show ?thesis using cap g p Put_full [of ctx] Get_empty [of ctx] by auto
qed

theorem free_list_fails_closed_witness:
  "rb_reach 2 (snd (RING_BUFFER_Put (snd (RING_BUFFER_Put (RING_BUFFER_Init 2))))) \<and>
   usage (snd (RING_BUFFER_Put (snd (RING_BUFFER_Put (RING_BUFFER_Init 2))))) = 2 \<and>
   fst (RING_BUFFER_Put (snd (RING_BUFFER_Put (snd (RING_BUFFER_Put (RING_BUFFER_Init 2)))))) = RING_BUFFER_NO_INDEX \<and>
   fst (RING_BUFFER_Get (RING_BUFFER_Init 2)) = RING_BUFFER_NO_INDEX"
proof -
  have r0: "rb_reach 2 (RING_BUFFER_Init 2)" by (rule rb_init)
  have r2: "rb_reach 2 (snd (RING_BUFFER_Put (snd (RING_BUFFER_Put (RING_BUFFER_Init 2)))))"
    by (intro rb_put rb_init)
  have u: "usage (snd (RING_BUFFER_Put (snd (RING_BUFFER_Put (RING_BUFFER_Init 2))))) = 2"
    by (simp add: RING_BUFFER_Put_def RING_BUFFER_Init_def)
  show ?thesis
    using free_list_fails_closed [OF r2] free_list_fails_closed [OF r0] r2 u
    by (simp add: RING_BUFFER_Init_def)
qed

section \<open>Properties of the RX engine\<close>

lemma mod_add_inj:
  fixes t a b c :: nat
  assumes "a < c" "b < c" "(t + a) mod c = (t + b) mod c"
  shows "a = b"
proof -
  have aux: False if "x < y" "y < c" "(t + x) mod c = (t + y) mod c" for x y :: nat
  proof -
    have "t + x \<le> t + y" using that by simp
    from mod_eq_dvd_iff_nat [OF this, of c] that(3)
    have "c dvd (t + y) - (t + x)" by metis
    then have "c dvd y - x" by simp
    moreover have "0 < y - x" "y - x < c" using that by simp_all
    ultimately show False using nat_dvd_not_less by blast
  qed
  show ?thesis
  proof (rule ccontr)
    assume "a \<noteq> b"
    then consider "a < b" | "b < a" by linarith
    then show False using aux [of a b] aux [of b a] assms by cases simp_all
  qed
qed

lemma ring_contents_Put:
  assumes inv: "rb_inv ctx" and lt: "unat (usage ctx) < unat (capacity ctx)"
    and len: "length dat = unat (capacity ctx)"
  shows "ring_contents (snd (RING_BUFFER_Put ctx)) (dat[unat (fst (RING_BUFFER_Put ctx)) := p])
       = ring_contents ctx dat @ [p]"
proof -
  note ok = Put_ok [OF inv lt]
  let ?c = "unat (capacity ctx)" and ?t = "unat (tail ctx)" and ?u = "unat (usage ctx)"
  from lt have ne: "capacity ctx \<noteq> 0" by auto
  from inv ne have h: "unat (head ctx) = (?t + ?u) mod ?c" by (simp add: rb_inv_def)
  have hlt: "(?t + ?u) mod ?c < length dat" using lt len by simp
  have old: "dat[(?t + ?u) mod ?c := p] ! ((?t + k) mod ?c) = dat ! ((?t + k) mod ?c)" if "k < ?u" for k
  proof -
    have "(?t + k) mod ?c \<noteq> (?t + ?u) mod ?c"
      using mod_add_inj [of k ?c ?u ?t] that lt by auto
    then show ?thesis by simp
  qed
  have "ring_contents (snd (RING_BUFFER_Put ctx)) (dat[unat (fst (RING_BUFFER_Put ctx)) := p])
      = map (\<lambda>k. dat[(?t + ?u) mod ?c := p] ! ((?t + k) mod ?c)) [0 ..< Suc ?u]"
    using ok h by (simp add: ring_contents_def del: upt_Suc)
  also have "\<dots> = map (\<lambda>k. dat ! ((?t + k) mod ?c)) [0 ..< ?u] @ [p]"
    using old hlt by simp
  finally show ?thesis by (simp add: ring_contents_def)
qed

lemma ring_contents_Get:
  assumes inv: "rb_inv ctx" and ne: "usage ctx \<noteq> 0"
  shows "ring_contents ctx dat
       = dat ! unat (fst (RING_BUFFER_Get ctx)) # ring_contents (snd (RING_BUFFER_Get ctx)) dat"
proof -
  note ok = Get_ok [OF inv ne]
  let ?c = "unat (capacity ctx)" and ?t = "unat (tail ctx)" and ?u = "unat (usage ctx)"
  let ?u' = "unat (usage (snd (RING_BUFFER_Get ctx)))"
  from ne have ugt: "0 < ?u" by (simp add: unat_gt_0)
  with inv have cne: "capacity ctx \<noteq> 0" by (auto simp: rb_inv_def)
  from inv cne have t: "?t < ?c" by (simp add: rb_inv_def)
  have u: "?u = Suc ?u'" using ok(4) by simp
  have "[0 ..< ?u] = 0 # map Suc [0 ..< ?u']"
    unfolding u by (simp add: upt_conv_Cons map_Suc_upt del: upt_Suc)
  then have "ring_contents ctx dat
      = dat ! (?t mod ?c) # map (\<lambda>k. dat ! ((?t + Suc k) mod ?c)) [0 ..< ?u']"
    by (simp add: ring_contents_def comp_def)
  moreover have "(?t + Suc k) mod ?c = (Suc ?t mod ?c + k) mod ?c" for k
    by (simp add: mod_add_left_eq)
  ultimately show ?thesis using ok t by (simp add: ring_contents_def)
qed

lemma length_ring_contents: "length (ring_contents ctx dat) = unat (usage ctx)"
  by (simp add: ring_contents_def)

lemma unat_NUM_BUFS [simp]: "unat (of_nat NUM_BUFS :: uint32_t) = NUM_BUFS"
  by (simp add: NUM_BUFS_def)

lemma rx_part_count:
  assumes "rx_part R s"
  shows "unat (usage (ring_buf_ctx s)) + length (io_ctx s) + length R = NUM_BUFS"
proof -
  let ?L = "free_list s @ map Some (io_ctx s) @ map Some R"
  from assms have d: "distinct ?L" by (simp add: rx_part_def)
  from assms have e: "set ?L = Some ` {0 ..< NUM_BUFS}" by (simp add: rx_part_def Un_assoc)
  have "length ?L = card (set ?L)" using d by (simp only: distinct_card)
  also have "\<dots> = card (Some ` {0 ..< NUM_BUFS})" using e by simp
  also have "\<dots> = NUM_BUFS" by (simp add: card_image)
  finally show ?thesis by (simp add: free_list_def length_ring_contents)
qed

lemma rx_part_members:
  assumes "rx_part R s"
  shows "p \<in> set (free_list s) \<Longrightarrow> \<exists>b < NUM_BUFS. p = Some b"
    and "b \<in> set (io_ctx s) \<Longrightarrow> b < NUM_BUFS"
    and "b \<in> set R \<Longrightarrow> b < NUM_BUFS"
proof -
  from assms have e: "set (free_list s) \<union> Some ` set (io_ctx s) \<union> Some ` set R = Some ` {0 ..< NUM_BUFS}"
    by (simp add: rx_part_def)
  from e have sub: "set (free_list s) \<subseteq> Some ` {0 ..< NUM_BUFS}"
    "Some ` set (io_ctx s) \<subseteq> Some ` {0 ..< NUM_BUFS}" "Some ` set R \<subseteq> Some ` {0 ..< NUM_BUFS}"
    by blast+
  show "p \<in> set (free_list s) \<Longrightarrow> \<exists>b < NUM_BUFS. p = Some b" using sub(1) by auto
  show "b \<in> set (io_ctx s) \<Longrightarrow> b < NUM_BUFS" using sub(2) by auto
  show "b \<in> set R \<Longrightarrow> b < NUM_BUFS" using sub(3) by auto
qed

lemma rx_completion_eq:
  assumes "data ev = Some b" "b < length (heap s)"
    and "unat (fst (RING_BUFFER_Put (ring_buf_ctx s))) < NUM_BUFS"
  shows "rx_completion ev s = Inr (rx_put_back ev b s)"
  using assms by (auto simp: rx_completion_def rx_put_back_def rx_error_log_def Let_def split: prod.splits)

lemma rx_put_back_part:
  assumes part: "rx_part (b # R) s"
  shows "unat (fst (RING_BUFFER_Put (ring_buf_ctx s))) < NUM_BUFS"
    and "fst (RING_BUFFER_Put (ring_buf_ctx s)) \<noteq> RING_BUFFER_NO_INDEX"
    and "free_list (rx_put_back ev b s) = free_list s @ [Some b]"
    and "rx_part R (rx_put_back ev b s)"
proof -
  let ?ctx = "ring_buf_ctx s"
  from part have cap: "capacity ?ctx = of_nat NUM_BUFS" and inv: "rb_inv ?ctx"
    and len: "length (ring_buf_data s) = NUM_BUFS" and hlen: "length (heap s) = NUM_BUFS"
    by (simp_all add: rx_part_def)
  from rx_part_count [OF part] have lt: "unat (usage ?ctx) < unat (capacity ?ctx)"
    by (simp add: cap)
  note ok = Put_ok [OF inv lt]
  from lt have "capacity ?ctx \<noteq> 0" by auto
  with inv have h: "unat (head ?ctx) < unat (capacity ?ctx)" by (simp add: rb_inv_def)
  then show idx: "unat (fst (RING_BUFFER_Put ?ctx)) < NUM_BUFS" using ok(1) cap by simp
  show "fst (RING_BUFFER_Put ?ctx) \<noteq> RING_BUFFER_NO_INDEX"
    using below_capacity_not_NO_INDEX [OF h] ok(1) by simp
  show fl: "free_list (rx_put_back ev b s) = free_list s @ [Some b]"
    using ring_contents_Put [OF inv lt, of "ring_buf_data s" "Some b"] len cap
    by (simp add: free_list_def rx_put_back_def)
  from part have d: "distinct (free_list s @ map Some (io_ctx s) @ map Some (b # R))"
    and e: "set (free_list s) \<union> Some ` set (io_ctx s) \<union> Some ` set (b # R) = Some ` {0 ..< NUM_BUFS}"
    and u: "\<forall>b' < NUM_BUFS. in_use (heap s ! b') \<longleftrightarrow> b' \<in> set (io_ctx s) \<or> b' \<in> set (b # R)"
    by (simp_all add: rx_part_def)
  have io: "io_ctx (rx_put_back ev b s) = io_ctx s" by (simp add: rx_put_back_def)
  have d': "distinct (free_list (rx_put_back ev b s) @ map Some (io_ctx s) @ map Some R)"
    using d unfolding fl by auto
  have e': "set (free_list (rx_put_back ev b s)) \<union> Some ` set (io_ctx s) \<union> Some ` set R = Some ` {0 ..< NUM_BUFS}"
    using e unfolding fl by auto
  have bn: "b \<notin> set (io_ctx s)" "b \<notin> set R" using d by auto
  have u': "in_use (heap (rx_put_back ev b s) ! b') \<longleftrightarrow> b' \<in> set (io_ctx s) \<or> b' \<in> set R"
    if "b' < NUM_BUFS" for b'
  proof (cases "b' = b")
    case True
    then show ?thesis using bn that hlen by (simp add: rx_put_back_def)
  next
    case False
    then show ?thesis using u that by (simp add: rx_put_back_def)
  qed
  show "rx_part R (rx_put_back ev b s)"
    unfolding rx_part_def io
    using d' e' u' rb_inv_Put [OF inv] ok(2) cap len hlen
    by (simp add: rx_put_back_def)
qed

lemma rx_put_back_frame:
  "io_ctx (rx_put_back ev b s) = io_ctx s"
  "usb_buffer_size (rx_put_back ev b s) = usb_buffer_size s"
  "keep_running (rx_put_back ev b s) = keep_running s"
  "overflows (rx_put_back ev b s) = overflows s"
  "buffers (rx_put_back ev b s) = buffers s"
  "effects (rx_put_back ev b s) = effects s @ rx_error_log (usb_buffer_size s) ev"
  by (simp_all add: rx_put_back_def)

lemma rx_completions_ok:
  assumes "rx_part R s" "map data evs = map Some R"
  shows "\<exists>s'. rx_completions evs s = Inr s' \<and> rx_part [] s' \<and>
           free_list s' = free_list s @ map data evs \<and>
           effects s' = effects s @ concat (map (rx_error_log (usb_buffer_size s)) evs) \<and>
           io_ctx s' = io_ctx s \<and> usb_buffer_size s' = usb_buffer_size s \<and>
           keep_running s' = keep_running s \<and> overflows s' = overflows s \<and>
           buffers s' = buffers s"
  using assms
proof (induction evs arbitrary: R s)
  case Nil
  then show ?case by simp
next
  case (Cons ev evs)
  from Cons.prems(2) obtain b R' where R: "R = b # R'" and b: "data ev = Some b"
    and rest: "map data evs = map Some R'"
    by (cases R) auto
  from Cons.prems(1) have part: "rx_part (b # R') s" by (simp add: R)
  note pb = rx_put_back_part [OF part]
  from part have "length (heap s) = NUM_BUFS" by (simp add: rx_part_def)
  moreover have "b < NUM_BUFS" using rx_part_members(3) [OF part, of b] by simp
  ultimately have eq: "rx_completion ev s = Inr (rx_put_back ev b s)"
    using rx_completion_eq [OF b _ pb(1)] by simp
  from Cons.IH [OF pb(4) rest] obtain s' where
    s': "rx_completions evs (rx_put_back ev b s) = Inr s'" "rx_part [] s'"
      "free_list s' = free_list (rx_put_back ev b s) @ map data evs"
      "effects s' = effects (rx_put_back ev b s) @
         concat (map (rx_error_log (usb_buffer_size (rx_put_back ev b s))) evs)"
      "io_ctx s' = io_ctx (rx_put_back ev b s)"
      "usb_buffer_size s' = usb_buffer_size (rx_put_back ev b s)"
      "keep_running s' = keep_running (rx_put_back ev b s)"
      "overflows s' = overflows (rx_put_back ev b s)"
      "buffers s' = buffers (rx_put_back ev b s)"
    by blast
  show ?case
    using eq s' pb(3) b by (simp add: rx_put_back_frame)
qed

lemma rx_reap_part:
  assumes part: "rx_part [] s"
    and d: "distinct (map data evs)"
    and m: "\<forall>e \<in> set evs. \<exists>b. data e = Some b \<and> b \<in> set (io_ctx s)"
  shows "rx_part (map (the \<circ> data) evs) (s\<lparr>io_ctx := io_getevents_reap evs (io_ctx s)\<rparr>)"
    and "map data evs = map Some (map (the \<circ> data) evs)"
proof -
  define R where "R = map (the \<circ> data) evs"
  define io where "io = io_getevents_reap evs (io_ctx s)"
  have md: "map data evs = map Some R" unfolding R_def using m by (induction evs) auto
  then show "map data evs = map Some (map (the \<circ> data) evs)" by (simp only: R_def)
  have "Some b \<in> set (map data evs) \<longleftrightarrow> b \<in> set R" for b
    unfolding md by auto
  then have io: "io = filter (\<lambda>b. b \<notin> set R) (io_ctx s)"
    unfolding io_def io_getevents_reap_def by simp
  have "distinct (map Some R)" using d md by simp
  then have dR: "distinct R" by (simp only: distinct_map)
  have sub: "set R \<subseteq> set (io_ctx s)" unfolding R_def using m by auto
  from part have d0: "distinct (free_list s)" "distinct (io_ctx s)"
    "set (free_list s) \<inter> Some ` set (io_ctx s) = {}"
    and e0: "set (free_list s) \<union> Some ` set (io_ctx s) = Some ` {0 ..< NUM_BUFS}"
    and u0: "\<forall>b < NUM_BUFS. in_use (heap s ! b) \<longleftrightarrow> b \<in> set (io_ctx s)"
    by (simp_all add: rx_part_def distinct_map)
  have seteq: "set io \<union> set R = set (io_ctx s)" using sub unfolding io by auto
  have dio: "distinct io" "set io \<inter> set R = {}" using d0(2) unfolding io by auto
  have "set (free_list s) \<inter> Some ` (set io \<union> set R) = {}"
    using d0(3) by (simp only: seteq)
  then have disj: "set (free_list s) \<inter> (Some ` set io \<union> Some ` set R) = {}"
    by (simp only: image_Un)
  have "Some ` set io \<inter> Some ` set R = {}" using dio(2) by auto
  then have d1: "distinct (free_list s @ map Some io @ map Some R)"
    using d0(1) dio(1) dR disj by (simp add: distinct_map)
  have e1: "set (free_list s) \<union> Some ` set io \<union> Some ` set R = Some ` {0 ..< NUM_BUFS}"
    using e0 seteq by (simp add: Un_assoc image_Un [symmetric])
  have u1: "\<forall>b < NUM_BUFS. in_use (heap s ! b) \<longleftrightarrow> b \<in> set io \<or> b \<in> set R"
    using u0 seteq by blast
  have "rx_part R (s\<lparr>io_ctx := io\<rparr>)"
    using part d1 e1 u1 by (simp add: rx_part_def free_list_def)
  then show "rx_part (map (the \<circ> data) evs) (s\<lparr>io_ctx := io_getevents_reap evs (io_ctx s)\<rparr>)"
    by (simp only: R_def io_def)
qed

lemma rx_handle_eventfd_aio_ok:
  assumes part: "rx_part [] s"
    and ok: "rx_kernel_ok stats s (Aio_ready read_ret ret events)"
    and nn: "0 \<le> read_ret" "0 \<le> ret"
  shows "\<exists>s'. handle_eventfd_aio read_ret ret events s = Inr (0, s') \<and> rx_part [] s' \<and>
           free_list s' = free_list s @ map data (take (nat ret) events) \<and>
           effects s' = effects s @ concat (map (rx_error_log (usb_buffer_size s)) (take (nat ret) events)) \<and>
           io_ctx s' = io_getevents_reap (take (nat ret) events) (io_ctx s) \<and>
           usb_buffer_size s' = usb_buffer_size s \<and>
           keep_running s' = keep_running s \<and> overflows s' = overflows s \<and>
           buffers s' = buffers s"
proof -
  let ?evs = "take (nat ret) events"
  from ok nn have d: "distinct (map data ?evs)"
    by (simp add: rx_kernel_ok_def)
  from ok nn have m: "\<forall>e \<in> set ?evs. \<exists>b. data e = Some b \<and> b \<in> set (io_ctx s)"
    by (auto simp: rx_kernel_ok_def split: option.splits)
  note reap = rx_reap_part [OF part d m]
  from rx_completions_ok [OF reap] obtain s' where
    "rx_completions ?evs (s\<lparr>io_ctx := io_getevents_reap ?evs (io_ctx s)\<rparr>) = Inr s'" "rx_part [] s'"
    "free_list s' = free_list (s\<lparr>io_ctx := io_getevents_reap ?evs (io_ctx s)\<rparr>) @ map data ?evs"
    "effects s' = effects (s\<lparr>io_ctx := io_getevents_reap ?evs (io_ctx s)\<rparr>) @
       concat (map (rx_error_log (usb_buffer_size (s\<lparr>io_ctx := io_getevents_reap ?evs (io_ctx s)\<rparr>))) ?evs)"
    "io_ctx s' = io_ctx (s\<lparr>io_ctx := io_getevents_reap ?evs (io_ctx s)\<rparr>)"
    "usb_buffer_size s' = usb_buffer_size (s\<lparr>io_ctx := io_getevents_reap ?evs (io_ctx s)\<rparr>)"
    "keep_running s' = keep_running (s\<lparr>io_ctx := io_getevents_reap ?evs (io_ctx s)\<rparr>)"
    "overflows s' = overflows (s\<lparr>io_ctx := io_getevents_reap ?evs (io_ctx s)\<rparr>)"
    "buffers s' = buffers (s\<lparr>io_ctx := io_getevents_reap ?evs (io_ctx s)\<rparr>)"
    by blast
  then show ?thesis using nn by (simp add: handle_eventfd_aio_def free_list_def)
qed

lemma rx_pool_inv_zero:
  "rx_pool_inv 0 ((rx_state_zero usb_size)\<lparr>ring_buf_ctx := RING_BUFFER_Init (of_nat NUM_BUFS)\<rparr>)"
  by (simp add: rx_pool_inv_def rx_state_zero_def rb_inv_Init) (simp add: RING_BUFFER_Init_def)

lemma rx_alloc_iter_fail: "\<not> malloc_ok i \<Longrightarrow> rx_alloc_iter malloc_ok i s = Inr None"
  by (simp add: rx_alloc_iter_def alloc_usb_buffer_def)

lemma rx_alloc_iter_ok:
  assumes inv: "rx_pool_inv i s" and i: "i < NUM_BUFS" and ok: "malloc_ok i"
  shows "\<exists>s'. rx_alloc_iter malloc_ok i s = Inr (Some s') \<and> rx_pool_inv (Suc i) s' \<and>
           usb_buffer_size s' = usb_buffer_size s \<and> effects s' = effects s \<and>
           overflows s' = overflows s \<and> keep_running s' = keep_running s"
proof -
  let ?ctx = "ring_buf_ctx s"
  from inv have cap: "capacity ?ctx = of_nat NUM_BUFS" and rb: "rb_inv ?ctx"
    and t: "tail ?ctx = 0" and u: "unat (usage ?ctx) = i"
    and len: "length (ring_buf_data s) = NUM_BUFS" "length (buffers s) = NUM_BUFS"
      "length (heap s) = i" and io: "io_ctx s = []"
    and old: "\<forall>k < i. ring_buf_data s ! k = Some k \<and> buffers s ! k = Some k \<and> \<not> in_use (heap s ! k)"
    by (simp_all add: rx_pool_inv_def)
  have lt: "unat (usage ?ctx) < unat (capacity ?ctx)" using u i cap by simp
  note put = Put_ok [OF rb lt]
  have cne: "capacity ?ctx \<noteq> 0" using lt by auto
  have h: "unat (head ?ctx) = i" using rb cne t u i cap by (simp add: rb_inv_def)
  define s' where "s' = s\<lparr>heap := heap s @ [\<lparr>in_use = False\<rparr>],
      buffers := (buffers s)[i := Some i],
      ring_buf_ctx := snd (RING_BUFFER_Put ?ctx),
      ring_buf_data := (ring_buf_data s)[i := Some i]\<rparr>"
  have eq: "rx_alloc_iter malloc_ok i s = Inr (Some s')"
    using ok i h put(1) len(3)
    by (simp add: rx_alloc_iter_def alloc_usb_buffer_def s'_def Let_def case_prod_beta)
  have new: "ring_buf_data s' ! k = Some k \<and> buffers s' ! k = Some k \<and> \<not> in_use (heap s' ! k)"
    if "k < Suc i" for k
  proof (cases "k = i")
    case True
    then show ?thesis using len i by (simp add: s'_def nth_append)
  next
    case False
    with that have "k < i" by simp
    then show ?thesis using old len by (simp add: s'_def nth_append)
  qed
  have "rx_pool_inv (Suc i) s'"
    unfolding rx_pool_inv_def
    using new rb_inv_Put [OF rb] put(2,3,4) cap t u len io
    by (simp add: s'_def)
  then show ?thesis using eq by (auto simp: s'_def)
qed

lemma rx_alloc_loop_inv:
  assumes "rx_pool_inv i s" "i \<le> NUM_BUFS"
  shows "rx_alloc_loop malloc_ok i s = Inr None \<or>
         (\<exists>s'. rx_alloc_loop malloc_ok i s = Inr (Some s') \<and> rx_pool_inv NUM_BUFS s' \<and>
            usb_buffer_size s' = usb_buffer_size s \<and> effects s' = effects s \<and>
            overflows s' = overflows s \<and> keep_running s' = keep_running s)"
  using assms
proof (induction malloc_ok i s rule: rx_alloc_loop.induct)
  case (1 malloc_ok i s)
  show ?case
  proof (cases "i < NUM_BUFS")
    case False
    with "1.prems" have "i = NUM_BUFS" by simp
    then show ?thesis using "1.prems" by (simp add: rx_alloc_loop.simps)
  next
    case True
    show ?thesis
    proof (cases "malloc_ok i")
      case False
      then show ?thesis using True rx_alloc_iter_fail [of malloc_ok i s]
        by (simp add: rx_alloc_loop.simps)
    next
      case ok: True
      from rx_alloc_iter_ok [where malloc_ok = malloc_ok, OF "1.prems"(1) True ok] obtain s1 where
        s1: "rx_alloc_iter malloc_ok i s = Inr (Some s1)" "rx_pool_inv (Suc i) s1"
          "usb_buffer_size s1 = usb_buffer_size s" "effects s1 = effects s"
          "overflows s1 = overflows s" "keep_running s1 = keep_running s"
        by blast
      from True have "Suc i \<le> NUM_BUFS" by simp
      from "1.IH" [OF True s1(1) refl s1(2) this]
      show ?thesis using True s1 by (simp add: rx_alloc_loop.simps [of malloc_ok i s])
    qed
  qed
qed

lemma rx_pool_init_cases:
  "rx_pool_init malloc_ok usb_size = Inr None \<or>
   (\<exists>s. rx_pool_init malloc_ok usb_size = Inr (Some s) \<and> rx_pool_inv NUM_BUFS s \<and>
      usb_buffer_size s = usb_size \<and> effects s = [] \<and> overflows s = 0 \<and>
      \<not> keep_running s)"
  using rx_alloc_loop_inv [OF rx_pool_inv_zero, of malloc_ok usb_size]
  by (simp add: rx_pool_init_def rx_state_zero_def)

lemma rx_pool_inv_part:
  assumes "rx_pool_inv NUM_BUFS s"
  shows "rx_part [] s" and "buffers s = map Some [0 ..< NUM_BUFS]"
proof -
  from assms have cap: "capacity (ring_buf_ctx s) = of_nat NUM_BUFS" and rb: "rb_inv (ring_buf_ctx s)"
    and t: "tail (ring_buf_ctx s) = 0" and u: "unat (usage (ring_buf_ctx s)) = NUM_BUFS"
    and len: "length (ring_buf_data s) = NUM_BUFS" "length (buffers s) = NUM_BUFS"
      "length (heap s) = NUM_BUFS" and io: "io_ctx s = []"
    and all: "\<forall>k < NUM_BUFS. ring_buf_data s ! k = Some k \<and> buffers s ! k = Some k \<and> \<not> in_use (heap s ! k)"
    by (simp_all add: rx_pool_inv_def)
  show "buffers s = map Some [0 ..< NUM_BUFS]"
    using len all by (intro nth_equalityI) simp_all
  have "free_list s = map (\<lambda>k. ring_buf_data s ! k) [0 ..< NUM_BUFS]"
    using cap t u by (simp add: free_list_def ring_contents_def)
  also have "\<dots> = map Some [0 ..< NUM_BUFS]" using all by simp
  finally have fl: "free_list s = map Some [0 ..< NUM_BUFS]" .
  show "rx_part [] s"
    unfolding rx_part_def fl using cap rb len io all by (simp add: distinct_map)
qed

lemma rx_handle_iio_buffer_empty:
  assumes "usage (ring_buf_ctx s) = 0" "nbytes = usb_buffer_size s"
  shows "handle_iio_buffer stats nbytes submit_res s =
           Inr (0, s\<lparr>effects := effects s @ [Iio_buffer_refill],
                      overflows := (if stats then overflows s + 1 else overflows s)\<rparr>)"
  using assms Get_empty [of "ring_buf_ctx s"]
  by (simp add: handle_iio_buffer_def Let_def)

lemma rx_handle_iio_buffer_submit:
  assumes "nbytes = usb_buffer_size s"
    and "fst (RING_BUFFER_Get (ring_buf_ctx s)) \<noteq> RING_BUFFER_NO_INDEX"
    and "unat (fst (RING_BUFFER_Get (ring_buf_ctx s))) < NUM_BUFS"
    and "ring_buf_data s ! unat (fst (RING_BUFFER_Get (ring_buf_ctx s))) = Some b"
    and "b < length (heap s)"
  shows "handle_iio_buffer stats nbytes submit_res s =
     (if submit_res = 1
      then Inr (0, s\<lparr>ring_buf_ctx := snd (RING_BUFFER_Get (ring_buf_ctx s)),
                      heap := (heap s)[b := (heap s ! b)\<lparr>in_use := True\<rparr>],
                      effects := effects s @ [Iio_buffer_refill, Io_submit (Some b)],
                      io_ctx := io_ctx s @ [b]\<rparr>)
      else Inr (- 1, s\<lparr>ring_buf_ctx := snd (RING_BUFFER_Get (ring_buf_ctx s)),
                      heap := (heap s)[b := (heap s ! b)\<lparr>in_use := False\<rparr>],
                      effects := effects s @ [Iio_buffer_refill, Io_submit (Some b),
                                   Perror ''Failed to submit usb write'']\<rparr>))"
  using assms
  by (simp add: handle_iio_buffer_def Let_def case_prod_beta)

lemma part_move_to_io:
  assumes "distinct ((Some b # F) @ map Some io)" "set (Some b # F) \<union> Some ` set io = U"
  shows "distinct (F @ map Some (io @ [b]))" "set F \<union> Some ` set (io @ [b]) = U"
    "b \<notin> set io"
  using assms by (auto simp: distinct_map)

lemma rx_handle_iio_buffer_ok:
  assumes part: "rx_part [] s"
  shows "\<exists>rc s'. handle_iio_buffer stats nbytes submit_res s = Inr (rc, s') \<and>
           buffers s' = buffers s \<and> (0 \<le> rc \<longrightarrow> rx_part [] s')"
proof (cases "nbytes = usb_buffer_size s")
  case False
  then show ?thesis by (simp add: handle_iio_buffer_def Let_def)
next
  case size: True
  show ?thesis
  proof (cases "usage (ring_buf_ctx s) = 0")
    case True
    have "rx_part [] (s\<lparr>effects := effects s @ [Iio_buffer_refill],
                        overflows := (if stats then overflows s + 1 else overflows s)\<rparr>)"
      using part by (simp add: rx_part_def free_list_def)
    then show ?thesis
      using rx_handle_iio_buffer_empty [OF True size, of stats submit_res] by simp
  next
    case False
    let ?ctx = "ring_buf_ctx s"
    from part have cap: "capacity ?ctx = of_nat NUM_BUFS" and rb: "rb_inv ?ctx"
      and len: "length (ring_buf_data s) = NUM_BUFS" and hlen: "length (heap s) = NUM_BUFS"
      and d: "distinct (free_list s @ map Some (io_ctx s))"
      and e: "set (free_list s) \<union> Some ` set (io_ctx s) = Some ` {0 ..< NUM_BUFS}"
      and u: "\<forall>b < NUM_BUFS. in_use (heap s ! b) \<longleftrightarrow> b \<in> set (io_ctx s)"
      by (simp_all add: rx_part_def)
    note get = Get_ok [OF rb False]
    from False have "0 < unat (usage ?ctx)" by (simp add: unat_gt_0)
    with rb have "capacity ?ctx \<noteq> 0" by (auto simp: rb_inv_def)
    with rb have tl: "unat (tail ?ctx) < unat (capacity ?ctx)" by (simp add: rb_inv_def)
    have idx: "unat (fst (RING_BUFFER_Get ?ctx)) < NUM_BUFS" using tl get(1) cap by simp
    have nn: "fst (RING_BUFFER_Get ?ctx) \<noteq> RING_BUFFER_NO_INDEX"
      using below_capacity_not_NO_INDEX [OF tl] get(1) by simp
    define p where "p = ring_buf_data s ! unat (fst (RING_BUFFER_Get ?ctx))"
    define F where "F = ring_contents (snd (RING_BUFFER_Get ?ctx)) (ring_buf_data s)"
    have fl: "free_list s = p # F"
      using ring_contents_Get [OF rb False, of "ring_buf_data s"] by (simp add: free_list_def p_def F_def)
    then have "p \<in> set (free_list s)" by simp
    with rx_part_members(1) [OF part] obtain b where b: "b < NUM_BUFS" "p = Some b" by blast
    have bl: "b < length (heap s)" using b(1) hlen by simp
    note eq = rx_handle_iio_buffer_submit [OF size nn idx b(2) [unfolded p_def] bl, of stats submit_res]
    show ?thesis
    proof (cases "submit_res = 1")
      case False
      then show ?thesis using eq by simp
    next
      case True
      define s' where "s' = s\<lparr>ring_buf_ctx := snd (RING_BUFFER_Get (ring_buf_ctx s)),
                      heap := (heap s)[b := (heap s ! b)\<lparr>in_use := True\<rparr>],
                      effects := effects s @ [Iio_buffer_refill, Io_submit (Some b)],
                      io_ctx := io_ctx s @ [b]\<rparr>"
      have eq': "handle_iio_buffer stats nbytes submit_res s = Inr (0, s')"
        using eq True by (simp add: s'_def)
      have fl': "free_list s' = F" by (simp add: s'_def free_list_def F_def)
      have io': "io_ctx s' = io_ctx s @ [b]" by (simp add: s'_def)
      note mv = part_move_to_io [OF d [unfolded fl b(2)] e [unfolded fl b(2)]]
      have u': "in_use (heap s' ! b') \<longleftrightarrow> b' \<in> set (io_ctx s @ [b])" if "b' < NUM_BUFS" for b'
      proof (cases "b' = b")
        case True
        then show ?thesis using that hlen by (simp add: s'_def)
      next
        case False
        then show ?thesis using u that by (simp add: s'_def)
      qed
      have cap': "capacity (ring_buf_ctx s') = of_nat NUM_BUFS" using get(2) cap by (simp add: s'_def)
      have rb': "rb_inv (ring_buf_ctx s')" using rb_inv_Get [OF rb] by (simp add: s'_def)
      have len': "length (ring_buf_data s') = NUM_BUFS" "length (heap s') = NUM_BUFS"
        using len hlen by (simp_all add: s'_def)
      have "rx_part [] s'"
        unfolding rx_part_def fl' io'
        using mv(1,2) u' cap' rb' len' by simp
      moreover have "buffers s' = buffers s" by (simp add: s'_def)
      ultimately show ?thesis using eq' by simp
    qed
  qed
qed

lemma rx_dispatch_ok:
  assumes part: "rx_part [] s" and ok: "rx_kernel_ok stats s r"
  shows "\<exists>rc s'. rx_dispatch stats r s = Inr (rc, s') \<and> buffers s' = buffers s \<and>
           (0 \<le> rc \<longrightarrow> rx_part [] s')"
proof (cases r)
  case Quit_ready
  then show ?thesis using part
    by (simp add: rx_dispatch_def handle_eventfd_thread_def rx_part_def free_list_def)
next
  case (Aio_ready read_ret ret events)
  show ?thesis
  proof (cases "0 \<le> read_ret \<and> 0 \<le> ret")
    case True
    with rx_handle_eventfd_aio_ok [OF part ok [unfolded Aio_ready]]
    show ?thesis unfolding Aio_ready by (auto simp: rx_dispatch_def)
  next
    case False
    then show ?thesis unfolding Aio_ready
      by (auto simp: rx_dispatch_def handle_eventfd_aio_def)
  qed
next
  case (Iio_ready nbytes submit_res)
  then show ?thesis using rx_handle_iio_buffer_ok [OF part]
    by (simp add: rx_dispatch_def)
next
  case (Stats_ready read_ret)
  then show ?thesis using part
    by (simp add: rx_dispatch_def handle_stats_timer_def Let_def rx_part_def free_list_def)
qed

lemma rx_running_inv:
  assumes "rx_running stats s"
  shows "rx_part [] s \<and> buffers s = map Some [0 ..< NUM_BUFS]"
  using assms
proof (induction rule: rx_running.induct)
  case (rx_enter malloc_ok usb_size s)
  with rx_pool_init_cases [of malloc_ok usb_size] have "rx_pool_inv NUM_BUFS s" by auto
  from rx_pool_inv_part [OF this] show ?case by (simp add: rx_part_def free_list_def)
next
  case (rx_step s r rc s')
  then have part: "rx_part [] s" and bufs: "buffers s = map Some [0 ..< NUM_BUFS]" by simp_all
  from rx_dispatch_ok [OF part rx_step.hyps(2)] rx_step.hyps(3,4) bufs
  show ?case by auto
qed

lemma rx_alloc_loop_not_None:
  assumes "rx_pool_inv i s" "i \<le> NUM_BUFS" "\<forall>k < NUM_BUFS. malloc_ok k"
  shows "rx_alloc_loop malloc_ok i s \<noteq> Inr None"
  using assms
proof (induction malloc_ok i s rule: rx_alloc_loop.induct)
  case (1 malloc_ok i s)
  show ?case
  proof (cases "i < NUM_BUFS")
    case False
    then show ?thesis by (simp add: rx_alloc_loop.simps)
  next
    case True
    with "1.prems"(3) have ok: "malloc_ok i" by simp
    from rx_alloc_iter_ok [where malloc_ok = malloc_ok, OF "1.prems"(1) True ok] obtain s1 where
      s1: "rx_alloc_iter malloc_ok i s = Inr (Some s1)" "rx_pool_inv (Suc i) s1"
      by blast
    from True have "Suc i \<le> NUM_BUFS" by simp
    from "1.IH" [OF True s1(1) refl s1(2) this "1.prems"(3)]
    show ?thesis using True s1 by (simp add: rx_alloc_loop.simps [of malloc_ok i s])
  qed
qed

lemma rx_pool_inv_full_eq:
  assumes inv: "rx_pool_inv NUM_BUFS s"
    and fr: "usb_buffer_size s = usb_size" "effects s = []" "overflows s = 0" "\<not> keep_running s"
  shows "s = (rx_state_ready usb_size)\<lparr>keep_running := False\<rparr>"
proof -
  from inv have cap: "capacity (ring_buf_ctx s) = 16" and rb: "rb_inv (ring_buf_ctx s)"
    and t: "tail (ring_buf_ctx s) = 0" and u: "unat (usage (ring_buf_ctx s)) = 16"
    and len: "length (ring_buf_data s) = 16" "length (buffers s) = 16"
      "length (heap s) = 16" and io: "io_ctx s = []"
    and all: "\<forall>k < 16. ring_buf_data s ! k = Some k \<and> buffers s ! k = Some k \<and> \<not> in_use (heap s ! k)"
    by (simp_all add: rx_pool_inv_def NUM_BUFS_def)
  have bufs: "buffers s = map Some [0 ..< 16]"
    using len all by (intro nth_equalityI) simp_all
  have ring: "ring_buf_data s = map Some [0 ..< 16]"
    using len all by (intro nth_equalityI) simp_all
  have hp: "heap s = replicate 16 \<lparr>in_use = False\<rparr>"
    using len all by (intro nth_equalityI) simp_all
  have "usage (ring_buf_ctx s) = 16" using u by (simp add: word_unat_eq_iff)
  moreover have "head (ring_buf_ctx s) = 0" using rb cap t u by (simp add: rb_inv_def word_unat_eq_iff)
  ultimately have ctx: "ring_buf_ctx s = \<lparr>capacity = 16, usage = 16, head = 0, tail = 0\<rparr>"
    using cap t by simp
  show ?thesis
    using bufs ring hp ctx io fr by (simp add: rx_state_ready_def)
qed

lemma rx_pool_init_all_ok:
  "rx_pool_init (\<lambda>i. True) usb_size = Inr (Some ((rx_state_ready usb_size)\<lparr>keep_running := False\<rparr>))"
proof -
  have "rx_pool_init (\<lambda>i. True) usb_size \<noteq> Inr None"
    unfolding rx_pool_init_def by (rule rx_alloc_loop_not_None [OF rx_pool_inv_zero]) simp_all
  with rx_pool_init_cases [of "\<lambda>i. True" usb_size] obtain s where
    s: "rx_pool_init (\<lambda>i. True) usb_size = Inr (Some s)" "rx_pool_inv NUM_BUFS s"
      "usb_buffer_size s = usb_size" "effects s = []" "overflows s = 0" "\<not> keep_running s"
    by blast
  from rx_pool_inv_full_eq [OF s(2-6)] s(1) show ?thesis by simp
qed

lemma rx_running_ready: "rx_running stats (rx_state_ready usb_size)"
  using rx_enter [OF rx_pool_init_all_ok, of stats usb_size] by (simp add: rx_state_ready_def)

lemma rx_run_handlers_running:
  assumes "rx_running stats s" "rx_batch_ok stats rs s"
    "rx_run_handlers stats rs s = Inr (rc, s')" "0 \<le> rc"
  shows "rx_running stats s'"
  using assms
proof (induction rs arbitrary: s)
  case Nil
  then show ?case by simp
next
  case (Cons r rs)
  from Cons.prems(2) have ok: "rx_kernel_ok stats s r" by simp
  from rx_running_inv [OF Cons.prems(1)] have part: "rx_part [] s" by simp
  from rx_dispatch_ok [OF part ok] obtain rc1 s1 where
    d: "rx_dispatch stats r s = Inr (rc1, s1)" by blast
  show ?case
  proof (cases "rc1 < 0")
    case True
    with Cons.prems(3,4) d show ?thesis by simp
  next
    case False
    then have "rx_running stats s1" using rx_step [OF Cons.prems(1) ok d] by simp
    moreover have "rx_batch_ok stats rs s1" using Cons.prems(2) d False by simp
    moreover have "rx_run_handlers stats rs s1 = Inr (rc, s')" using Cons.prems(3) d False by simp
    ultimately show ?thesis using Cons.IH Cons.prems(4) by blast
  qed
qed

lemma rx_two_submits:
  "rx_run_handlers False [Iio_ready 4096 1, Iio_ready 4096 1] (rx_state_ready 4096)
     = Inr (0, rx_state_two_in_flight)"
  by code_simp

lemma rx_sixteen_submits:
  "rx_run_handlers False (replicate 16 (Iio_ready 4096 1)) (rx_state_ready 4096)
     = Inr (0, rx_state_all_in_flight)"
  by code_simp

lemma rx_two_batch_ok: "rx_batch_ok False [Iio_ready 4096 1, Iio_ready 4096 1] (rx_state_ready 4096)"
  by code_simp

lemma free_list_two_in_flight: "free_list rx_state_two_in_flight = map Some [2 ..< 16]"
  by code_simp
lemma in_flight_two_in_flight: "in_flight rx_state_two_in_flight = [0, 1]"
  by code_simp

lemma rx_two_in_flight_running: "rx_running False rx_state_two_in_flight"
  using rx_run_handlers_running [OF rx_running_ready rx_two_batch_ok rx_two_submits] by simp

lemma rx_sixteen_batch_ok: "rx_batch_ok False (replicate 16 (Iio_ready 4096 1)) (rx_state_ready 4096)"
  by code_simp

lemma rx_all_in_flight_running: "rx_running False rx_state_all_in_flight"
  using rx_run_handlers_running [OF rx_running_ready rx_sixteen_batch_ok rx_sixteen_submits] by simp

lemma rx_part_in_flight:
  assumes "rx_part [] s"
  shows "set (in_flight s) = set (io_ctx s)" and "length (in_flight s) = length (io_ctx s)"
proof -
  from assms have u: "\<forall>b < NUM_BUFS. in_use (heap s ! b) \<longleftrightarrow> b \<in> set (io_ctx s)"
    and d: "distinct (io_ctx s)" by (simp_all add: rx_part_def distinct_map)
  have sub: "b \<in> set (io_ctx s) \<Longrightarrow> b < NUM_BUFS" for b
    using rx_part_members(2) [OF assms] by simp
  show eq: "set (in_flight s) = set (io_ctx s)"
    using u sub by (auto simp: in_flight_def)
  have "distinct (in_flight s)" by (simp add: in_flight_def)
  then have "length (in_flight s) = card (set (in_flight s))" by (simp only: distinct_card)
  also have "\<dots> = length (io_ctx s)" using d eq by (simp add: distinct_card)
  finally show "length (in_flight s) = length (io_ctx s)" .
qed

text \<open>Claim C1. At every dispatch boundary of the RX engine's main loop each of the sixteen
  buffers is either in the free-list or in flight and never both; the free-list holds no
  buffer twice and nothing but pool buffers; the length of the free-list and the number of
  buffers in flight add up to the capacity of the pool, 16; and the buffers in flight (flag
  set) are exactly the requests the kernel's context holds.\<close>

theorem rx_pool_partition:
  assumes "rx_running stats s"
  shows "(\<forall>b < NUM_BUFS. (Some b \<in> set (free_list s)) \<noteq> (b \<in> set (in_flight s))) \<and>
         distinct (free_list s) \<and>
         set (free_list s) \<subseteq> Some ` {0 ..< NUM_BUFS} \<and>
         length (free_list s) + length (in_flight s) = NUM_BUFS \<and>
         set (in_flight s) = set (io_ctx s)"
proof -
  from rx_running_inv [OF assms] have part: "rx_part [] s" by simp
  note fl = rx_part_in_flight [OF part]
  from part have d: "distinct (free_list s)" "set (free_list s) \<inter> Some ` set (io_ctx s) = {}"
    and e: "set (free_list s) \<union> Some ` set (io_ctx s) = Some ` {0 ..< NUM_BUFS}"
    by (simp_all add: rx_part_def)
  have one: "(Some b \<in> set (free_list s)) \<noteq> (b \<in> set (in_flight s))" if "b < NUM_BUFS" for b
  proof -
    from that e have "Some b \<in> set (free_list s) \<union> Some ` set (io_ctx s)" by simp
    then show ?thesis using d(2) fl(1) by auto
  qed
  have sub: "set (free_list s) \<subseteq> Some ` {0 ..< NUM_BUFS}" using e by blast
  have "length (free_list s) + length (in_flight s) = NUM_BUFS"
    using rx_part_count [OF part] fl(2) by (simp add: free_list_def length_ring_contents)
  then show ?thesis using one d(1) sub fl(1) by simp
qed

theorem rx_pool_partition_witness:
  "rx_running False rx_state_two_in_flight \<and>
   free_list rx_state_two_in_flight = map Some [2 ..< 16] \<and>
   in_flight rx_state_two_in_flight = [0, 1] \<and>
   length (free_list rx_state_two_in_flight) + length (in_flight rx_state_two_in_flight) = NUM_BUFS \<and>
   (Some 1 \<in> set (free_list rx_state_two_in_flight)) \<noteq> (1 \<in> set (in_flight rx_state_two_in_flight))"
proof -
  have "(1::nat) < NUM_BUFS" by (simp add: NUM_BUFS_def)
  then show ?thesis
    using rx_pool_partition [OF rx_two_in_flight_running] rx_two_in_flight_running
      free_list_two_in_flight in_flight_two_in_flight
    by blast
qed

text \<open>Claim C5. In the RX completion handler, once the eventfd was read and
  \<^verbatim>\<open>io_getevents\<close> returned \<open>ret\<close> events, the handler returns 0 and, event by event in
  the order of the array: a message goes to standard error exactly when the byte count
  \<open>res\<close> differs from the expected buffer size and is not \<^verbatim>\<open>-ESHUTDOWN\<close>; and, whatever
  the outcome, the buffer of the event has its flag cleared and is appended to the
  free-list.\<close>

theorem rx_completion_recycles:
  assumes "rx_running stats s"
    and "rx_kernel_ok stats s (Aio_ready read_ret ret events)"
    and "0 \<le> read_ret" and "0 \<le> ret"
  shows "\<exists>s'. handle_eventfd_aio read_ret ret events s = Inr (0, s') \<and>
           effects s' = effects s @
             concat (map (\<lambda>ev. if usb_buffer_size s \<noteq> res ev \<and> res ev \<noteq> - ESHUTDOWN
                                then [Stderr_usb_error (res ev) (res2 ev)] else [])
                         (take (nat ret) events)) \<and>
           free_list s' = free_list s @ map data (take (nat ret) events) \<and>
           (\<forall>ev \<in> set (take (nat ret) events).
              \<exists>b < NUM_BUFS. data ev = Some b \<and> \<not> in_use (heap s' ! b) \<and>
                 b \<notin> set (io_ctx s'))"
proof -
  let ?evs = "take (nat ret) events"
  from rx_running_inv [OF assms(1)] have part: "rx_part [] s" by simp
  from rx_handle_eventfd_aio_ok [OF part assms(2-4)] obtain s' where
    s': "handle_eventfd_aio read_ret ret events s = Inr (0, s')" "rx_part [] s'"
      "free_list s' = free_list s @ map data ?evs"
      "effects s' = effects s @ concat (map (rx_error_log (usb_buffer_size s)) ?evs)"
      "io_ctx s' = io_getevents_reap ?evs (io_ctx s)"
    by blast
  have log: "rx_error_log (usb_buffer_size s) =
      (\<lambda>ev. if usb_buffer_size s \<noteq> res ev \<and> res ev \<noteq> - ESHUTDOWN
            then [Stderr_usb_error (res ev) (res2 ev)] else [])"
    by (rule ext) (simp add: rx_error_log_def)
  have rec: "\<exists>b < NUM_BUFS. data ev = Some b \<and> \<not> in_use (heap s' ! b) \<and> b \<notin> set (io_ctx s')"
    if ev: "ev \<in> set ?evs" for ev
  proof -
    from ev have "data ev \<in> set (free_list s')" unfolding s'(3) by simp
    with rx_part_members(1) [OF s'(2)] obtain b where b: "b < NUM_BUFS" "data ev = Some b"
      by blast
    have "Some b \<in> set (map data ?evs)" using ev b(2) by force
    then have nio: "b \<notin> set (io_ctx s')" unfolding s'(5) io_getevents_reap_def by simp
    from s'(2) have "\<forall>b < NUM_BUFS. in_use (heap s' ! b) \<longleftrightarrow> b \<in> set (io_ctx s')"
      by (simp add: rx_part_def)
    with b(1) nio have "\<not> in_use (heap s' ! b)" by simp
    with b nio show ?thesis by blast
  qed
  show ?thesis using s'(1,3,4) rec unfolding log by blast
qed

lemma rx_three_events_kernel_ok:
  "rx_kernel_ok False rx_state_all_in_flight
     (Aio_ready 8 3 [\<lparr>data = Some 0, res = 4096, res2 = 0\<rparr>,
                     \<lparr>data = Some 1, res = 2048, res2 = 0\<rparr>,
                     \<lparr>data = Some 2, res = - 108, res2 = 0\<rparr>])"
  by code_simp

theorem rx_completion_recycles_witness:
  "rx_running False rx_state_all_in_flight \<and>
   rx_kernel_ok False rx_state_all_in_flight
     (Aio_ready 8 3 [\<lparr>data = Some 0, res = 4096, res2 = 0\<rparr>,
                     \<lparr>data = Some 1, res = 2048, res2 = 0\<rparr>,
                     \<lparr>data = Some 2, res = - 108, res2 = 0\<rparr>]) \<and>
   (\<exists>s'. handle_eventfd_aio 8 3 [\<lparr>data = Some 0, res = 4096, res2 = 0\<rparr>,
                                  \<lparr>data = Some 1, res = 2048, res2 = 0\<rparr>,
                                  \<lparr>data = Some 2, res = - 108, res2 = 0\<rparr>] rx_state_all_in_flight
           = Inr (0, s') \<and>
         effects s' = effects rx_state_all_in_flight @ [Stderr_usb_error 2048 0] \<and>
         free_list s' = [Some 0, Some 1, Some 2])"
proof -
  have fl: "free_list rx_state_all_in_flight = []" by code_simp
  have sz: "usb_buffer_size rx_state_all_in_flight = 4096" by (simp add: rx_state_all_in_flight_def)
  from rx_completion_recycles [OF rx_all_in_flight_running rx_three_events_kernel_ok]
  show ?thesis
    using rx_all_in_flight_running rx_three_events_kernel_ok
    by (simp add: fl sz ESHUTDOWN_def) blast
qed

lemma rx_pool_init_no_fault: "rx_pool_init malloc_ok usb_size \<noteq> Inl f"
  using rx_pool_init_cases [of malloc_ok usb_size] by auto

lemma rx_pool_init_sixteen_puts:
  assumes "\<forall>i < NUM_BUFS. malloc_ok i"
  shows "\<exists>s0. rx_pool_init malloc_ok usb_size = Inr (Some s0) \<and>
           unat (usage (ring_buf_ctx s0)) = NUM_BUFS"
proof -
  have "rx_pool_init malloc_ok usb_size \<noteq> Inr None"
    unfolding rx_pool_init_def
    by (rule rx_alloc_loop_not_None [OF rx_pool_inv_zero _ assms]) simp
  with rx_pool_init_cases [of malloc_ok usb_size] obtain s0 where
    "rx_pool_init malloc_ok usb_size = Inr (Some s0)" "rx_pool_inv NUM_BUFS s0"
    by blast
  then show ?thesis by (auto simp: rx_pool_inv_def)
qed

lemma NO_INDEX_out_of_bounds: "\<not> unat RING_BUFFER_NO_INDEX < NUM_BUFS"
  by (simp add: RING_BUFFER_NO_INDEX_def NUM_BUFS_def)

text \<open>Claim C10. The puts of the RX engine never fail, so the unchecked index is in bounds.
  Setting up the pool never faults, whatever \<^verbatim>\<open>malloc\<close> does, and when the sixteen
  allocations succeed the sixteen puts all succeed (the usage is 16 afterwards). In the main
  loop the completion handler, called on events the kernel can give, never faults either,
  and a run that processes \<open>ret\<close> events raises the usage by exactly \<open>ret\<close>: every put
  took a slot. A put that returned \<^verbatim>\<open>RING_BUFFER_NO_INDEX\<close> would be the fault
  \<open>OutOfBounds\<close>, since the sentinel is not below 16.\<close>

theorem rx_put_never_fails:
  "rx_pool_init malloc_ok usb_size \<noteq> Inl f \<and>
   ((\<forall>i < NUM_BUFS. malloc_ok i) \<longrightarrow>
      (\<exists>s0. rx_pool_init malloc_ok usb_size = Inr (Some s0) \<and>
            unat (usage (ring_buf_ctx s0)) = NUM_BUFS)) \<and>
   (rx_running stats s \<and> rx_kernel_ok stats s (Aio_ready read_ret ret events) \<longrightarrow>
      handle_eventfd_aio read_ret ret events s \<noteq> Inl f \<and>
      (0 \<le> read_ret \<and> 0 \<le> ret \<longrightarrow>
         (\<exists>s'. handle_eventfd_aio read_ret ret events s = Inr (0, s') \<and>
               unat (usage (ring_buf_ctx s')) = unat (usage (ring_buf_ctx s)) + nat ret))) \<and>
   \<not> unat RING_BUFFER_NO_INDEX < NUM_BUFS"
proof -
  have run: "handle_eventfd_aio read_ret ret events s \<noteq> Inl f \<and>
      (0 \<le> read_ret \<and> 0 \<le> ret \<longrightarrow>
         (\<exists>s'. handle_eventfd_aio read_ret ret events s = Inr (0, s') \<and>
               unat (usage (ring_buf_ctx s')) = unat (usage (ring_buf_ctx s)) + nat ret))"
    if r: "rx_running stats s" and k: "rx_kernel_ok stats s (Aio_ready read_ret ret events)"
  proof -
    from rx_running_inv [OF r] have part: "rx_part [] s" by simp
    from rx_dispatch_ok [OF part k] have nf: "handle_eventfd_aio read_ret ret events s \<noteq> Inl f"
      by (auto simp: rx_dispatch_def)
    have "\<exists>s'. handle_eventfd_aio read_ret ret events s = Inr (0, s') \<and>
               unat (usage (ring_buf_ctx s')) = unat (usage (ring_buf_ctx s)) + nat ret"
      if nn: "0 \<le> read_ret" "0 \<le> ret"
    proof -
      from rx_handle_eventfd_aio_ok [OF part k nn] obtain s' where
        s': "handle_eventfd_aio read_ret ret events s = Inr (0, s')"
          "free_list s' = free_list s @ map data (take (nat ret) events)"
        by blast
      from k nn have "nat ret \<le> length events" by (simp add: rx_kernel_ok_def)
      then have "length (take (nat ret) events) = nat ret" by simp
      with arg_cong [OF s'(2), of length]
      have "unat (usage (ring_buf_ctx s')) = unat (usage (ring_buf_ctx s)) + nat ret"
        by (simp add: free_list_def length_ring_contents)
      with s'(1) show ?thesis by blast
    qed
    with nf show ?thesis by blast
  qed
  show ?thesis
    using rx_pool_init_no_fault rx_pool_init_sixteen_puts run NO_INDEX_out_of_bounds
    by blast
qed

theorem rx_put_never_fails_witness:
  "rx_running False rx_state_all_in_flight \<and>
   rx_kernel_ok False rx_state_all_in_flight
     (Aio_ready 8 3 [\<lparr>data = Some 0, res = 4096, res2 = 0\<rparr>,
                     \<lparr>data = Some 1, res = 2048, res2 = 0\<rparr>,
                     \<lparr>data = Some 2, res = - 108, res2 = 0\<rparr>]) \<and>
   rx_pool_init (\<lambda>i. True) 4096 \<noteq> Inl OutOfBounds \<and>
   (\<exists>s0. rx_pool_init (\<lambda>i. True) 4096 = Inr (Some s0) \<and> unat (usage (ring_buf_ctx s0)) = NUM_BUFS) \<and>
   handle_eventfd_aio 8 3 [\<lparr>data = Some 0, res = 4096, res2 = 0\<rparr>,
                           \<lparr>data = Some 1, res = 2048, res2 = 0\<rparr>,
                           \<lparr>data = Some 2, res = - 108, res2 = 0\<rparr>] rx_state_all_in_flight
     \<noteq> Inl OutOfBounds \<and>
   (\<exists>s'. handle_eventfd_aio 8 3 [\<lparr>data = Some 0, res = 4096, res2 = 0\<rparr>,
                                  \<lparr>data = Some 1, res = 2048, res2 = 0\<rparr>,
                                  \<lparr>data = Some 2, res = - 108, res2 = 0\<rparr>] rx_state_all_in_flight
           = Inr (0, s') \<and>
         unat (usage (ring_buf_ctx s')) = 3)"
proof -
  have u: "unat (usage (ring_buf_ctx rx_state_all_in_flight)) = 0"
    by (simp add: rx_state_all_in_flight_def)
  from rx_put_never_fails [of "\<lambda>i. True" 4096 OutOfBounds False rx_state_all_in_flight 8 3
      "[\<lparr>data = Some 0, res = 4096, res2 = 0\<rparr>, \<lparr>data = Some 1, res = 2048, res2 = 0\<rparr>,
        \<lparr>data = Some 2, res = - 108, res2 = 0\<rparr>]"]
  show ?thesis
    using rx_all_in_flight_running rx_three_events_kernel_ok
    by (simp add: u)
qed

text \<open>Claim C4, as the code has it. When a refill returns a full buffer while the free-list
  is empty, the handler returns 0 and changes nothing but the trace, which gains the
  refill alone (no \<^verbatim>\<open>io_submit\<close>), and, only when the engine is compiled with
  \<^verbatim>\<open>GENERATE_STATS\<close>, the overflow counter, which grows by one (modulo \<open>2^32\<close>). In the
  default build (\<^verbatim>\<open>GENERATE_STATS\<close> is 0) there is no counter and nothing is counted.\<close>

theorem rx_overflow_accounting:
  assumes "usage (ring_buf_ctx s) = 0" and "nbytes = usb_buffer_size s"
  shows "handle_iio_buffer stats nbytes submit_res s =
           Inr (0, s\<lparr>effects := effects s @ [Iio_buffer_refill],
                      overflows := (if stats then overflows s + 1 else overflows s)\<rparr>)"
  by (rule rx_handle_iio_buffer_empty [OF assms])

theorem rx_overflow_accounting_witness:
  "usage (ring_buf_ctx rx_state_all_in_flight) = 0 \<and>
   4096 = usb_buffer_size rx_state_all_in_flight \<and>
   handle_iio_buffer True 4096 1 rx_state_all_in_flight =
     Inr (0, rx_state_all_in_flight\<lparr>effects := effects rx_state_all_in_flight @ [Iio_buffer_refill],
                                   overflows := 1\<rparr>)"
proof -
  have a: "usage (ring_buf_ctx rx_state_all_in_flight) = 0"
    and b: "4096 = usb_buffer_size rx_state_all_in_flight"
    and c: "overflows rx_state_all_in_flight = 0"
    by (simp_all add: rx_state_all_in_flight_def)
  show ?thesis using rx_overflow_accounting [OF a b, of True 1] a b c by simp
qed

text \<open>The claim as the spec states it fails in the default build: with the free-list empty
  and a full refill, the counter of the state is what it was, not one more.\<close>

theorem rx_overflow_not_counted_by_default:
  "usage (ring_buf_ctx rx_state_all_in_flight) = 0 \<and>
   handle_iio_buffer False 4096 1 rx_state_all_in_flight =
     Inr (0, rx_state_all_in_flight\<lparr>effects := effects rx_state_all_in_flight @ [Iio_buffer_refill]\<rparr>) \<and>
   overflows (rx_state_all_in_flight\<lparr>effects := effects rx_state_all_in_flight @ [Iio_buffer_refill]\<rparr>)
     \<noteq> overflows rx_state_all_in_flight + 1"
  by (simp add: rx_state_all_in_flight_def handle_iio_buffer_def RING_BUFFER_Get_def
      RING_BUFFER_NO_INDEX_def Let_def)

section \<open>Properties of the TX engine\<close>

lemma tx_pool_inv_zero: "tx_pool_inv 0 (tx_state_zero usb_size, [])"
  by (simp add: tx_pool_inv_def tx_state_zero_def)

lemma tx_alloc_iter_fail: "\<not> malloc_ok i \<Longrightarrow> tx_alloc_iter malloc_ok i sb = None"
  by (simp add: tx_alloc_iter_def tx_alloc_usb_buffer_def)

lemma tx_alloc_iter_ok:
  assumes inv: "tx_pool_inv i sb" and i: "i < NUM_BUFS" and ok: "malloc_ok i"
  shows "\<exists>sb'. tx_alloc_iter malloc_ok i sb = Some sb' \<and> tx_pool_inv (Suc i) sb' \<and>
           tx_usb_buffer_size (fst sb') = tx_usb_buffer_size (fst sb) \<and>
           tx_effects (fst sb') = tx_effects (fst sb) \<and>
           tx_overflows (fst sb') = tx_overflows (fst sb) \<and>
           tx_keep_running (fst sb') = tx_keep_running (fst sb)"
proof -
  obtain s bufs where sb: "sb = (s, bufs)" by (cases sb)
  from inv have bufs: "bufs = [0 ..< i]" and len: "length (tx_heap s) = i" "length (tx_buffers s) = NUM_BUFS"
    and io: "tx_io_ctx s = []"
    and old: "\<forall>k < i. tx_buffers s ! k = Some k \<and> in_use (tx_heap s ! k)"
    by (simp_all add: tx_pool_inv_def sb)
  define s' where "s' = s\<lparr>tx_heap := tx_heap s @ [\<lparr>in_use = True\<rparr>],
      tx_buffers := (tx_buffers s)[i := Some i]\<rparr>"
  have eq: "tx_alloc_iter malloc_ok i sb = Some (s', bufs @ [i])"
    using ok len(1) [symmetric] by (simp add: tx_alloc_iter_def tx_alloc_usb_buffer_def s'_def sb Let_def)
  have new: "tx_buffers s' ! k = Some k \<and> in_use (tx_heap s' ! k)" if "k < Suc i" for k
  proof (cases "k = i")
    case True
    then show ?thesis using len i by (simp add: s'_def nth_append)
  next
    case False
    with that have "k < i" by simp
    then show ?thesis using old len by (simp add: s'_def nth_append)
  qed
  have "tx_pool_inv (Suc i) (s', bufs @ [i])"
    unfolding tx_pool_inv_def using new bufs len io by (simp add: s'_def)
  then show ?thesis using eq by (auto simp: s'_def sb)
qed

lemma tx_alloc_loop_inv:
  assumes "tx_pool_inv i sb" "i \<le> NUM_BUFS"
  shows "tx_alloc_loop malloc_ok i sb = None \<or>
         (\<exists>sb'. tx_alloc_loop malloc_ok i sb = Some sb' \<and> tx_pool_inv NUM_BUFS sb' \<and>
            tx_usb_buffer_size (fst sb') = tx_usb_buffer_size (fst sb) \<and>
            tx_effects (fst sb') = tx_effects (fst sb) \<and>
            tx_overflows (fst sb') = tx_overflows (fst sb) \<and>
            tx_keep_running (fst sb') = tx_keep_running (fst sb))"
  using assms
proof (induction malloc_ok i sb rule: tx_alloc_loop.induct)
  case (1 malloc_ok i sb)
  show ?case
  proof (cases "i < NUM_BUFS")
    case False
    with "1.prems" have "i = NUM_BUFS" by simp
    then show ?thesis using "1.prems" by (simp add: tx_alloc_loop.simps)
  next
    case True
    show ?thesis
    proof (cases "malloc_ok i")
      case False
      then show ?thesis using True tx_alloc_iter_fail [of malloc_ok i sb]
        by (simp add: tx_alloc_loop.simps)
    next
      case ok: True
      from tx_alloc_iter_ok [where malloc_ok = malloc_ok, OF "1.prems"(1) True ok] obtain sb1 where
        s1: "tx_alloc_iter malloc_ok i sb = Some sb1" "tx_pool_inv (Suc i) sb1"
          "tx_usb_buffer_size (fst sb1) = tx_usb_buffer_size (fst sb)"
          "tx_effects (fst sb1) = tx_effects (fst sb)"
          "tx_overflows (fst sb1) = tx_overflows (fst sb)"
          "tx_keep_running (fst sb1) = tx_keep_running (fst sb)"
        by blast
      from True have "Suc i \<le> NUM_BUFS" by simp
      from "1.IH" [OF True s1(1) s1(2) this]
      show ?thesis using True s1 by (simp add: tx_alloc_loop.simps [of malloc_ok i sb])
    qed
  qed
qed


lemma tx_pool_init_Some:
  assumes "tx_pool_init malloc_ok usb_size submit_res = Some s"
  shows "s = (tx_state_ready usb_size)\<lparr>tx_keep_running := False\<rparr>"
proof -
  from tx_alloc_loop_inv [OF tx_pool_inv_zero, of malloc_ok usb_size] assms
  obtain s0 bufs where l: "tx_alloc_loop malloc_ok 0 (tx_state_zero usb_size, []) = Some (s0, bufs)"
    and inv: "tx_pool_inv NUM_BUFS (s0, bufs)"
    and fr: "tx_usb_buffer_size s0 = usb_size" "tx_effects s0 = []" "tx_overflows s0 = 0"
      "\<not> tx_keep_running s0"
    by (auto simp: tx_pool_init_def tx_state_zero_def)
  from assms l have res: "submit_res = int NUM_BUFS"
    and s: "s = s0\<lparr>tx_effects := tx_effects s0 @ [Io_submit_all (map Some bufs)],
                   tx_io_ctx := take (nat submit_res) bufs\<rparr>"
    by (auto simp: tx_pool_init_def Let_def split: if_splits)
  from inv have bufs: "bufs = [0 ..< 16]" and len: "length (tx_heap s0) = 16" "length (tx_buffers s0) = 16"
    and all: "\<forall>k < 16. tx_buffers s0 ! k = Some k \<and> in_use (tx_heap s0 ! k)"
    by (simp_all add: tx_pool_inv_def NUM_BUFS_def)
  have b: "tx_buffers s0 = map Some [0 ..< 16]"
    using len all by (intro nth_equalityI) simp_all
  have h: "tx_heap s0 = replicate 16 \<lparr>in_use = True\<rparr>"
    using len all by (intro nth_equalityI) simp_all
  show ?thesis
    unfolding s using b h fr bufs res by (simp add: tx_state_ready_def NUM_BUFS_def)
qed


lemma tx_part_ready: "tx_part [] (tx_state_ready usb_size)"
  by (simp add: tx_part_def tx_state_ready_def NUM_BUFS_def)


lemma tx_completion_ok:
  assumes part: "tx_part (b # R) s" and b: "data (fst e) = Some b" and sub: "snd (snd e) = 1"
  shows "\<exists>s'. tx_completion stats e s = Inr (None, s') \<and> tx_part R s' \<and>
           tx_effects s' = tx_effects s @ tx_event_effects (tx_usb_buffer_size s) e \<and>
           tx_usb_buffer_size s' = tx_usb_buffer_size s \<and>
           tx_keep_running s' = tx_keep_running s"
proof -
  from part have hlen: "length (tx_heap s) = NUM_BUFS"
    and bufs: "tx_buffers s = map Some [0 ..< NUM_BUFS]"
    and d: "distinct (tx_io_ctx s @ b # R)"
    and e: "set (tx_io_ctx s) \<union> set (b # R) = {0 ..< NUM_BUFS}"
    and u: "\<forall>b < NUM_BUFS. in_use (tx_heap s ! b)"
    by (simp_all add: tx_part_def)
  from e have "b < NUM_BUFS" by auto
  then have bl: "b < length (tx_heap s)" using hlen by simp
  define s1 where "s1 =
     (if tx_usb_buffer_size s = res (fst e)
      then (if fst (snd e) \<noteq> tx_usb_buffer_size s \<and> stats
            then s\<lparr>tx_effects := tx_effects s @ [Iio_buffer_push], tx_overflows := tx_overflows s + 1\<rparr>
            else s\<lparr>tx_effects := tx_effects s @ [Iio_buffer_push]\<rparr>)
      else if - ESHUTDOWN \<noteq> res (fst e)
      then s\<lparr>tx_effects := tx_effects s @ [Stderr_usb_error (res (fst e)) (res2 (fst e))]\<rparr>
      else s)"
  define s' where "s' = s1\<lparr>tx_effects := tx_effects s1 @ [Io_submit (Some b)],
                             tx_io_ctx := tx_io_ctx s1 @ [b]\<rparr>"
  have eq: "tx_completion stats e s = Inr (None, s')"
    using b sub bl by (simp add: tx_completion_def Let_def s'_def s1_def)
  have fr: "tx_io_ctx s1 = tx_io_ctx s" "tx_heap s1 = tx_heap s" "tx_buffers s1 = tx_buffers s"
    "tx_usb_buffer_size s1 = tx_usb_buffer_size s" "tx_keep_running s1 = tx_keep_running s"
    by (simp_all add: s1_def)
  have ef: "tx_effects s' = tx_effects s @ tx_event_effects (tx_usb_buffer_size s) e"
    using b by (simp add: s'_def s1_def tx_event_effects_def)
  have d': "distinct ((tx_io_ctx s @ [b]) @ R)" using d by auto
  have e': "set (tx_io_ctx s @ [b]) \<union> set R = {0 ..< NUM_BUFS}" using e by auto
  have "tx_part R s'"
    unfolding tx_part_def using hlen bufs d' e' u by (simp add: s'_def fr)
  then show ?thesis using eq ef by (simp add: s'_def fr)
qed

lemma tx_completion_submit_failed:
  assumes part: "tx_part (b # R) s" and b: "data (fst e) = Some b" and sub: "snd (snd e) \<noteq> 1"
  shows "\<exists>s'. tx_completion stats e s = Inr (Some (- 1), s')"
proof -
  from part have hlen: "length (tx_heap s) = NUM_BUFS"
    and e: "set (tx_io_ctx s) \<union> set (b # R) = {0 ..< NUM_BUFS}"
    by (simp_all add: tx_part_def)
  from e have "b < NUM_BUFS" by auto
  then have bl: "b < length (tx_heap s)" using hlen by simp
  show ?thesis using b sub bl by (simp add: tx_completion_def Let_def)
qed

lemma tx_completions_ok:
  assumes "tx_part R s" "map (data \<circ> fst) es = map Some R"
  shows "\<exists>rc s'. tx_completions stats es s = Inr (rc, s') \<and>
           (rc = 0 \<and> (\<forall>e \<in> set es. snd (snd e) = 1) \<or> rc = - 1 \<and> (\<exists>e \<in> set es. snd (snd e) \<noteq> 1)) \<and>
           (rc = 0 \<longrightarrow> tx_part [] s' \<and>
              tx_effects s' = tx_effects s @ concat (map (tx_event_effects (tx_usb_buffer_size s)) es) \<and>
              tx_usb_buffer_size s' = tx_usb_buffer_size s \<and>
              tx_keep_running s' = tx_keep_running s)"
  using assms
proof (induction es arbitrary: R s)
  case Nil
  then show ?case by simp
next
  case (Cons e es)
  from Cons.prems(2) obtain b R' where R: "R = b # R'" and b: "data (fst e) = Some b"
    and rest: "map (data \<circ> fst) es = map Some R'"
    by (cases R) (auto simp: comp_def)
  from Cons.prems(1) have part: "tx_part (b # R') s" by (simp add: R)
  show ?case
  proof (cases "snd (snd e) = 1")
    case False
    from tx_completion_submit_failed [OF part b False, of stats] obtain s' where
      "tx_completion stats e s = Inr (Some (- 1), s')" by blast
    then show ?thesis using False by auto
  next
    case True
    from tx_completion_ok [OF part b True, of stats] obtain s1 where
      s1: "tx_completion stats e s = Inr (None, s1)" "tx_part R' s1"
        "tx_effects s1 = tx_effects s @ tx_event_effects (tx_usb_buffer_size s) e"
        "tx_usb_buffer_size s1 = tx_usb_buffer_size s"
        "tx_keep_running s1 = tx_keep_running s"
      by blast
    from Cons.IH [OF s1(2) rest] obtain rc s' where
      s': "tx_completions stats es s1 = Inr (rc, s')"
        "rc = 0 \<and> (\<forall>e \<in> set es. snd (snd e) = 1) \<or> rc = - 1 \<and> (\<exists>e \<in> set es. snd (snd e) \<noteq> 1)"
        "rc = 0 \<longrightarrow> tx_part [] s' \<and>
              tx_effects s' = tx_effects s1 @ concat (map (tx_event_effects (tx_usb_buffer_size s1)) es) \<and>
              tx_usb_buffer_size s' = tx_usb_buffer_size s1 \<and>
              tx_keep_running s' = tx_keep_running s1"
      by blast
    have "tx_completions stats (e # es) s = Inr (rc, s')" using s1(1) s'(1) by simp
    moreover have "rc = 0 \<and> (\<forall>e \<in> set (e # es). snd (snd e) = 1) \<or>
        rc = - 1 \<and> (\<exists>e \<in> set (e # es). snd (snd e) \<noteq> 1)"
      using s'(2) True by auto
    moreover have "rc = 0 \<longrightarrow> tx_part [] s' \<and>
        tx_effects s' = tx_effects s @ concat (map (tx_event_effects (tx_usb_buffer_size s)) (e # es)) \<and>
        tx_usb_buffer_size s' = tx_usb_buffer_size s \<and> tx_keep_running s' = tx_keep_running s"
      using s'(3) s1(3,4,5) by simp
    ultimately show ?thesis by blast
  qed
qed

lemma tx_reap_part:
  assumes part: "tx_part [] s"
    and d: "distinct (map (data \<circ> fst) es)"
    and m: "\<forall>e \<in> set es. \<exists>b. data (fst e) = Some b \<and> b \<in> set (tx_io_ctx s)"
  shows "tx_part (map (the \<circ> data \<circ> fst) es)
           (s\<lparr>tx_io_ctx := io_getevents_reap (map fst es) (tx_io_ctx s)\<rparr>)"
    and "map (data \<circ> fst) es = map Some (map (the \<circ> data \<circ> fst) es)"
proof -
  define R where "R = map (the \<circ> data \<circ> fst) es"
  define io where "io = io_getevents_reap (map fst es) (tx_io_ctx s)"
  have md: "map (data \<circ> fst) es = map Some R" unfolding R_def using m by (induction es) auto
  then show "map (data \<circ> fst) es = map Some (map (the \<circ> data \<circ> fst) es)" by (simp only: R_def)
  have "Some b \<in> set (map data (map fst es)) \<longleftrightarrow> b \<in> set R" for b
    using md by (simp only: map_map) auto
  then have io: "io = filter (\<lambda>b. b \<notin> set R) (tx_io_ctx s)"
    unfolding io_def io_getevents_reap_def by simp
  have "distinct (map Some R)" using d md by simp
  then have dR: "distinct R" by (simp only: distinct_map)
  have sub: "set R \<subseteq> set (tx_io_ctx s)" unfolding R_def using m by auto
  from part have d0: "distinct (tx_io_ctx s)"
    and e0: "set (tx_io_ctx s) = {0 ..< NUM_BUFS}"
    and rest: "length (tx_heap s) = NUM_BUFS" "tx_buffers s = map Some [0 ..< NUM_BUFS]"
      "\<forall>b < NUM_BUFS. in_use (tx_heap s ! b)"
    by (simp_all add: tx_part_def)
  have seteq: "set io \<union> set R = set (tx_io_ctx s)" using sub unfolding io by auto
  have dio: "distinct io" "set io \<inter> set R = {}" using d0 unfolding io by auto
  have "tx_part R (s\<lparr>tx_io_ctx := io\<rparr>)"
    unfolding tx_part_def using dio dR seteq e0 rest by simp
  then show "tx_part (map (the \<circ> data \<circ> fst) es)
           (s\<lparr>tx_io_ctx := io_getevents_reap (map fst es) (tx_io_ctx s)\<rparr>)"
    by (simp only: R_def io_def)
qed

lemma tx_handle_eventfd_aio_ok:
  assumes part: "tx_part [] s"
    and ok: "tx_kernel_ok stats s (Tx_aio_ready read_ret ret events)"
    and nn: "0 \<le> read_ret" "0 \<le> ret"
  shows "\<exists>rc s'. tx_handle_eventfd_aio stats read_ret ret events s = Inr (rc, s') \<and>
           (rc = 0 \<and> (\<forall>e \<in> set (take (nat ret) events). snd (snd e) = 1) \<or>
            rc = - 1 \<and> (\<exists>e \<in> set (take (nat ret) events). snd (snd e) \<noteq> 1)) \<and>
           (rc = 0 \<longrightarrow> tx_part [] s' \<and>
              tx_effects s' = tx_effects s @
                concat (map (tx_event_effects (tx_usb_buffer_size s)) (take (nat ret) events)) \<and>
              tx_usb_buffer_size s' = tx_usb_buffer_size s \<and>
              tx_keep_running s' = tx_keep_running s)"
proof -
  let ?es = "take (nat ret) events"
  from ok nn have d: "distinct (map (data \<circ> fst) ?es)"
    by (simp add: tx_kernel_ok_def)
  from ok nn have m: "\<forall>e \<in> set ?es. \<exists>b. data (fst e) = Some b \<and> b \<in> set (tx_io_ctx s)"
    by (auto simp: tx_kernel_ok_def split: option.splits)
  note reap = tx_reap_part [OF part d m]
  from tx_completions_ok [OF reap, of stats]
  show ?thesis using nn by (simp add: tx_handle_eventfd_aio_def)
qed

lemma tx_dispatch_ok:
  assumes part: "tx_part [] s" and ok: "tx_kernel_ok stats s r"
  shows "\<exists>rc s'. tx_dispatch stats r s = Inr (rc, s') \<and> (0 \<le> rc \<longrightarrow> tx_part [] s')"
proof (cases r)
  case Tx_quit_ready
  then show ?thesis using part
    by (simp add: tx_dispatch_def tx_handle_eventfd_thread_def tx_part_def)
next
  case (Tx_aio_ready read_ret ret events)
  show ?thesis
  proof (cases "0 \<le> read_ret \<and> 0 \<le> ret")
    case True
    with tx_handle_eventfd_aio_ok [OF part ok [unfolded Tx_aio_ready]]
    show ?thesis unfolding Tx_aio_ready by (auto simp: tx_dispatch_def)
  next
    case False
    then show ?thesis unfolding Tx_aio_ready
      by (auto simp: tx_dispatch_def tx_handle_eventfd_aio_def)
  qed
next
  case (Tx_stats_ready read_ret)
  then show ?thesis using part
    by (simp add: tx_dispatch_def tx_handle_stats_timer_def Let_def tx_part_def)
qed

lemma tx_running_inv:
  assumes "tx_running stats s"
  shows "tx_part [] s"
  using assms
proof (induction rule: tx_running.induct)
  case (tx_enter malloc_ok usb_size submit_res s)
  from tx_pool_init_Some [OF this] tx_part_ready [of usb_size]
  show ?case by (simp add: tx_part_def)
next
  case (tx_step s r rc s')
  from tx_dispatch_ok [OF tx_step.IH tx_step.hyps(2)] tx_step.hyps(3,4)
  show ?case by auto
qed

lemma tx_run_handlers_running:
  assumes "tx_running stats s" "tx_batch_ok stats rs s"
    "tx_run_handlers stats rs s = Inr (rc, s')" "0 \<le> rc"
  shows "tx_running stats s'"
  using assms
proof (induction rs arbitrary: s)
  case Nil
  then show ?case by simp
next
  case (Cons r rs)
  from Cons.prems(2) have ok: "tx_kernel_ok stats s r" by simp
  from tx_dispatch_ok [OF tx_running_inv [OF Cons.prems(1)] ok] obtain rc1 s1 where
    d: "tx_dispatch stats r s = Inr (rc1, s1)" by blast
  show ?case
  proof (cases "rc1 < 0")
    case True
    with Cons.prems(3,4) d show ?thesis by simp
  next
    case False
    then have "tx_running stats s1" using tx_step [OF Cons.prems(1) ok d] by simp
    moreover have "tx_batch_ok stats rs s1" using Cons.prems(2) d False by simp
    moreover have "tx_run_handlers stats rs s1 = Inr (rc, s')" using Cons.prems(3) d False by simp
    ultimately show ?thesis using Cons.IH Cons.prems(4) by blast
  qed
qed






section \<open>The shutdown sequence\<close>

lemma rx_frame_refl: "rx_frame s s"
  by (simp add: rx_frame_def)

lemma rx_frame_trans: "rx_frame s s1 \<Longrightarrow> rx_frame s1 s2 \<Longrightarrow> rx_frame s s2"
  by (auto simp: rx_frame_def)

lemma rx_frameI:
  "buffers s' = buffers s \<Longrightarrow> effects s' = effects s @ added \<Longrightarrow>
   list_all (\<lambda>e. \<not> is_teardown e) added \<Longrightarrow> rx_frame s s'"
  by (auto simp: rx_frame_def)

lemma rx_completion_frame:
  assumes "rx_completion ev s = Inr s'"
  shows "rx_frame s s'"
proof -
  from assms obtain b where b: "data ev = Some b" "b < length (heap s)"
    by (auto simp: rx_completion_def Let_def split: option.splits if_splits)
  from assms b have "unat (fst (RING_BUFFER_Put (ring_buf_ctx s))) < NUM_BUFS"
    by (auto simp: rx_completion_def Let_def case_prod_beta split: if_splits)
  from rx_completion_eq [OF b this] assms have "s' = rx_put_back ev b s" by simp
  then show ?thesis
    by (intro rx_frameI [where added = "rx_error_log (usb_buffer_size s) ev"])
       (simp_all add: rx_put_back_def rx_error_log_def)
qed

lemma rx_completions_frame:
  "rx_completions evs s = Inr s' \<Longrightarrow> rx_frame s s'"
proof (induction evs arbitrary: s)
  case Nil
  then show ?case by (simp add: rx_frame_refl)
next
  case (Cons ev evs)
  from Cons.prems obtain s1 where s1: "rx_completion ev s = Inr s1" "rx_completions evs s1 = Inr s'"
    by (auto split: sum.splits)
  from rx_frame_trans [OF rx_completion_frame [OF s1(1)] Cons.IH [OF s1(2)]] show ?case .
qed

lemma rx_handle_eventfd_aio_frame:
  assumes "handle_eventfd_aio read_ret ret events s = Inr (rc, s')"
  shows "rx_frame s s'"
proof (cases "read_ret < 0 \<or> ret < 0")
  case True
  with assms show ?thesis
    by (auto simp: handle_eventfd_aio_def rx_frame_def split: if_splits)
next
  case False
  with assms have "rx_completions (take (nat ret) events)
      (s\<lparr>io_ctx := io_getevents_reap (take (nat ret) events) (io_ctx s)\<rparr>) = Inr s'"
    by (auto simp: handle_eventfd_aio_def split: sum.splits)
  from rx_completions_frame [OF this] show ?thesis by (simp add: rx_frame_def)
qed

lemma rx_handle_iio_buffer_frame:
  assumes "handle_iio_buffer stats nbytes submit_res s = Inr (rc, s')"
  shows "rx_frame s s'"
  using assms
  by (auto simp: handle_iio_buffer_def rx_frame_def Let_def case_prod_beta
      split: if_splits option.splits)

lemma rx_dispatch_frame:
  assumes "rx_dispatch stats r s = Inr (rc, s')"
  shows "rx_frame s s'"
proof (cases r)
  case Quit_ready
  with assms show ?thesis by (auto simp: rx_dispatch_def handle_eventfd_thread_def rx_frame_def)
next
  case (Aio_ready read_ret ret events)
  with assms rx_handle_eventfd_aio_frame show ?thesis by (simp add: rx_dispatch_def)
next
  case (Iio_ready nbytes submit_res)
  with assms rx_handle_iio_buffer_frame show ?thesis by (simp add: rx_dispatch_def)
next
  case (Stats_ready read_ret)
  with assms show ?thesis
    by (auto simp: rx_dispatch_def handle_stats_timer_def rx_frame_def Let_def split: if_splits)
qed

lemma rx_run_handlers_frame:
  "rx_run_handlers stats rs s = Inr (rc, s') \<Longrightarrow> rx_frame s s'"
proof (induction rs arbitrary: s)
  case Nil
  then show ?case by (simp add: rx_frame_refl)
next
  case (Cons r rs)
  from Cons.prems obtain rc1 s1 where d: "rx_dispatch stats r s = Inr (rc1, s1)"
    by (auto split: sum.splits)
  note f1 = rx_dispatch_frame [OF d]
  show ?case
  proof (cases "rc1 < 0")
    case True
    with Cons.prems d f1 show ?thesis by simp
  next
    case False
    with Cons.prems d have "rx_run_handlers stats rs s1 = Inr (rc, s')" by simp
    from rx_frame_trans [OF f1 Cons.IH [OF this]] show ?thesis .
  qed
qed

lemma rx_main_loop_frame:
  "rx_main_loop stats eps s = Inr (Some s') \<Longrightarrow> rx_frame s s'"
proof (induction eps arbitrary: s)
  case Nil
  then show ?case by (auto simp: rx_frame_refl split: if_splits)
next
  case (Cons ep eps)
  show ?case
  proof (cases "keep_running s")
    case False
    with Cons.prems show ?thesis by (simp add: rx_frame_refl)
  next
    case True
    with Cons.prems obtain rc1 s1 where d: "rx_EPOLL_LOOP_Run stats ep s = Inr (rc1, s1)"
      by (auto split: sum.splits)
    have f1: "rx_frame s s1"
    proof (cases ep)
      case Epoll_failed
      with d show ?thesis by (simp add: rx_EPOLL_LOOP_Run_def rx_frame_refl)
    next
      case (Epoll_ready rs)
      with d rx_run_handlers_frame show ?thesis by (simp add: rx_EPOLL_LOOP_Run_def)
    qed
    show ?thesis
    proof (cases "rc1 < 0")
      case neg: True
      with Cons.prems True d f1 show ?thesis by simp
    next
      case False
      with Cons.prems True d have "rx_main_loop stats eps s1 = Inr (Some s')" by simp
      from rx_frame_trans [OF f1 Cons.IH [OF this]] show ?thesis .
    qed
  qed
qed

lemma strictly_before_prefix:
  assumes "a \<notin> set pre" "b \<notin> set pre"
  shows "strictly_before a b (pre @ xs) = strictly_before a b xs"
proof -
  have "dropWhile (\<lambda>x. x \<noteq> b) (pre @ xs) = dropWhile (\<lambda>x. x \<noteq> b) xs"
    using assms(2) by (intro dropWhile_append2) auto
  then show ?thesis using assms by (simp add: strictly_before_def)
qed

lemma shutdown_sequence_ordered: "shutdown_ordered (shutdown_sequence stats)"
proof (cases stats)
  case True
  have "shutdown_ordered (shutdown_sequence True)" by code_simp
  with True show ?thesis by simp
next
  case False
  have "shutdown_ordered (shutdown_sequence False)" by code_simp
  with False show ?thesis by simp
qed

lemma shutdown_ordered_prefix:
  assumes "list_all (\<lambda>e. \<not> is_teardown e) pre"
  shows "shutdown_ordered (pre @ shutdown_sequence stats)"
proof -
  have nt: "e \<notin> set pre" if "is_teardown e" for e
    using assms that by (auto simp: list_all_iff)
  have a: "Io_destroy \<notin> set pre" "Iio_buffer_destroy \<notin> set pre" "Iio_context_destroy \<notin> set pre"
    "Free p \<notin> set pre" for p
    by (rule nt, simp)+
  show ?thesis
    using shutdown_sequence_ordered [of stats]
    by (simp add: shutdown_ordered_def strictly_before_prefix a)
qed

lemma rx_free_buffers_effects:
  "i \<le> NUM_BUFS \<Longrightarrow>
   effects (rx_free_buffers i s) = effects s @ map (\<lambda>k. Free (buffers s ! k)) [i ..< NUM_BUFS]"
proof (induction i s rule: rx_free_buffers.induct)
  case (1 i state)
  show ?case
  proof (cases "i < NUM_BUFS")
    case False
    with "1.prems" show ?thesis by (simp add: rx_free_buffers.simps)
  next
    case True
    let ?s1 = "state\<lparr>effects := effects state @ [Free (buffers state ! i)],
                      buffers := (buffers state)[i := None]\<rparr>"
    from True have "Suc i \<le> NUM_BUFS" by simp
    from "1.IH" [OF True this]
    have "effects (rx_free_buffers (Suc i) ?s1) =
        effects ?s1 @ map (\<lambda>k. Free (buffers ?s1 ! k)) [Suc i ..< NUM_BUFS]" .
    moreover have "map (\<lambda>k. Free (buffers ?s1 ! k)) [Suc i ..< NUM_BUFS]
        = map (\<lambda>k. Free (buffers state ! k)) [Suc i ..< NUM_BUFS]"
      by (rule map_cong) simp_all
    moreover have "[i ..< NUM_BUFS] = i # [Suc i ..< NUM_BUFS]"
      using True by (simp add: upt_conv_Cons)
    ultimately show ?thesis
      using True by (simp add: rx_free_buffers.simps [of i state])
  qed
qed

lemma rx_shutdown_effects:
  assumes "buffers s = map Some [0 ..< NUM_BUFS]"
  shows "effects (rx_shutdown stats s) = effects s @ shutdown_sequence stats"
proof -
  have "map (\<lambda>k. Free (buffers (rx_io_destroy s) ! k)) [0 ..< NUM_BUFS]
      = map (\<lambda>k. Free (Some k)) [0 ..< NUM_BUFS]"
    using assms by (intro map_cong) (simp_all add: rx_io_destroy_def)
  then have "effects (rx_free_buffers 0 (rx_io_destroy s))
      = effects s @ Io_destroy # map (\<lambda>k. Free (Some k)) [0 ..< NUM_BUFS]"
    using rx_free_buffers_effects [of 0 "rx_io_destroy s"] by (simp add: rx_io_destroy_def)
  then show ?thesis
    by (simp add: rx_shutdown_def rx_close_all_def shutdown_sequence_def Let_def NUM_BUFS_def)
qed

lemma THREAD_READ_Entrypoint_trace:
  assumes "THREAD_READ_Entrypoint stats malloc_ok usb_size eps = Inr (Some sf)"
  shows "\<exists>pre. effects sf = pre @ shutdown_sequence stats \<and> list_all (\<lambda>e. \<not> is_teardown e) pre"
proof -
  from assms obtain s0 s1 where
    init: "rx_pool_init malloc_ok usb_size = Inr (Some s0)"
    and loop: "rx_main_loop stats eps (s0\<lparr>keep_running := True\<rparr>) = Inr (Some s1)"
    and sf: "sf = rx_shutdown stats s1"
    by (auto simp: THREAD_READ_Entrypoint_def split: sum.splits option.splits)
  from rx_pool_init_cases [of malloc_ok usb_size] init
  have inv: "rx_pool_inv NUM_BUFS s0" and e0: "effects s0 = []" by auto
  from rx_pool_inv_part(2) [OF inv] have b0: "buffers s0 = map Some [0 ..< NUM_BUFS]" .
  from rx_main_loop_frame [OF loop] obtain added where
    f: "buffers s1 = buffers s0" "effects s1 = added" "list_all (\<lambda>e. \<not> is_teardown e) added"
    using e0 by (auto simp: rx_frame_def)
  from rx_shutdown_effects [of s1 stats] f(1) b0
  have "effects sf = added @ shutdown_sequence stats" by (simp add: sf f(2))
  with f(3) show ?thesis by blast
qed

lemma tx_frame_refl: "tx_frame s s"
  by (simp add: tx_frame_def)

lemma tx_frame_trans: "tx_frame s s1 \<Longrightarrow> tx_frame s1 s2 \<Longrightarrow> tx_frame s s2"
  by (auto simp: tx_frame_def)

lemma tx_completion_frame:
  assumes "tx_completion stats e s = Inr (r, s')"
  shows "tx_frame s s'"
  using assms
  by (auto simp: tx_completion_def tx_frame_def Let_def split: option.splits if_splits)

lemma tx_completions_frame:
  "tx_completions stats es s = Inr (rc, s') \<Longrightarrow> tx_frame s s'"
proof (induction es arbitrary: s)
  case Nil
  then show ?case by (simp add: tx_frame_refl)
next
  case (Cons e es)
  from Cons.prems obtain r s1 where s1: "tx_completion stats e s = Inr (r, s1)"
    by (auto split: sum.splits)
  note f1 = tx_completion_frame [OF s1]
  show ?case
  proof (cases r)
    case (Some rc1)
    with Cons.prems s1 f1 show ?thesis by simp
  next
    case None
    with Cons.prems s1 have "tx_completions stats es s1 = Inr (rc, s')" by simp
    from tx_frame_trans [OF f1 Cons.IH [OF this]] show ?thesis .
  qed
qed

lemma tx_handle_eventfd_aio_frame:
  assumes "tx_handle_eventfd_aio stats read_ret ret events s = Inr (rc, s')"
  shows "tx_frame s s'"
proof (cases "read_ret < 0 \<or> ret < 0")
  case True
  with assms show ?thesis
    by (auto simp: tx_handle_eventfd_aio_def tx_frame_def split: if_splits)
next
  case False
  with assms have "tx_completions stats (take (nat ret) events)
      (s\<lparr>tx_io_ctx := io_getevents_reap (map fst (take (nat ret) events)) (tx_io_ctx s)\<rparr>) = Inr (rc, s')"
    by (auto simp: tx_handle_eventfd_aio_def)
  from tx_completions_frame [OF this] show ?thesis by (simp add: tx_frame_def)
qed

lemma tx_dispatch_frame:
  assumes "tx_dispatch stats r s = Inr (rc, s')"
  shows "tx_frame s s'"
proof (cases r)
  case Tx_quit_ready
  with assms show ?thesis
    by (auto simp: tx_dispatch_def tx_handle_eventfd_thread_def tx_frame_def)
next
  case (Tx_aio_ready read_ret ret events)
  with assms tx_handle_eventfd_aio_frame show ?thesis by (simp add: tx_dispatch_def)
next
  case (Tx_stats_ready read_ret)
  with assms show ?thesis
    by (auto simp: tx_dispatch_def tx_handle_stats_timer_def tx_frame_def Let_def split: if_splits)
qed

lemma tx_run_handlers_frame:
  "tx_run_handlers stats rs s = Inr (rc, s') \<Longrightarrow> tx_frame s s'"
proof (induction rs arbitrary: s)
  case Nil
  then show ?case by (simp add: tx_frame_refl)
next
  case (Cons r rs)
  from Cons.prems obtain rc1 s1 where d: "tx_dispatch stats r s = Inr (rc1, s1)"
    by (auto split: sum.splits)
  note f1 = tx_dispatch_frame [OF d]
  show ?case
  proof (cases "rc1 < 0")
    case True
    with Cons.prems d f1 show ?thesis by simp
  next
    case False
    with Cons.prems d have "tx_run_handlers stats rs s1 = Inr (rc, s')" by simp
    from tx_frame_trans [OF f1 Cons.IH [OF this]] show ?thesis .
  qed
qed

lemma tx_main_loop_frame:
  "tx_main_loop stats eps s = Inr (Some s') \<Longrightarrow> tx_frame s s'"
proof (induction eps arbitrary: s)
  case Nil
  then show ?case by (auto simp: tx_frame_refl split: if_splits)
next
  case (Cons ep eps)
  show ?case
  proof (cases "tx_keep_running s")
    case False
    with Cons.prems show ?thesis by (simp add: tx_frame_refl)
  next
    case True
    with Cons.prems obtain rc1 s1 where d: "tx_EPOLL_LOOP_Run stats ep s = Inr (rc1, s1)"
      by (auto split: sum.splits)
    have f1: "tx_frame s s1"
    proof (cases ep)
      case Tx_epoll_failed
      with d show ?thesis by (simp add: tx_EPOLL_LOOP_Run_def tx_frame_refl)
    next
      case (Tx_epoll_ready rs)
      with d tx_run_handlers_frame show ?thesis by (simp add: tx_EPOLL_LOOP_Run_def)
    qed
    show ?thesis
    proof (cases "rc1 < 0")
      case neg: True
      with Cons.prems True d f1 show ?thesis by simp
    next
      case False
      with Cons.prems True d have "tx_main_loop stats eps s1 = Inr (Some s')" by simp
      from tx_frame_trans [OF f1 Cons.IH [OF this]] show ?thesis .
    qed
  qed
qed

lemma tx_free_buffers_effects:
  "i \<le> NUM_BUFS \<Longrightarrow>
   tx_effects (tx_free_buffers i s) = tx_effects s @ map (\<lambda>k. Free (tx_buffers s ! k)) [i ..< NUM_BUFS]"
proof (induction i s rule: tx_free_buffers.induct)
  case (1 i state)
  show ?case
  proof (cases "i < NUM_BUFS")
    case False
    with "1.prems" show ?thesis by (simp add: tx_free_buffers.simps)
  next
    case True
    let ?s1 = "state\<lparr>tx_effects := tx_effects state @ [Free (tx_buffers state ! i)],
                      tx_buffers := (tx_buffers state)[i := None]\<rparr>"
    from True have "Suc i \<le> NUM_BUFS" by simp
    from "1.IH" [OF True this]
    have "tx_effects (tx_free_buffers (Suc i) ?s1) =
        tx_effects ?s1 @ map (\<lambda>k. Free (tx_buffers ?s1 ! k)) [Suc i ..< NUM_BUFS]" .
    moreover have "map (\<lambda>k. Free (tx_buffers ?s1 ! k)) [Suc i ..< NUM_BUFS]
        = map (\<lambda>k. Free (tx_buffers state ! k)) [Suc i ..< NUM_BUFS]"
      by (rule map_cong) simp_all
    moreover have "[i ..< NUM_BUFS] = i # [Suc i ..< NUM_BUFS]"
      using True by (simp add: upt_conv_Cons)
    ultimately show ?thesis
      using True by (simp add: tx_free_buffers.simps [of i state])
  qed
qed

lemma tx_shutdown_effects:
  assumes "tx_buffers s = map Some [0 ..< NUM_BUFS]"
  shows "tx_effects (tx_shutdown stats s) = tx_effects s @ shutdown_sequence stats"
proof -
  have "map (\<lambda>k. Free (tx_buffers (tx_io_destroy s) ! k)) [0 ..< NUM_BUFS]
      = map (\<lambda>k. Free (Some k)) [0 ..< NUM_BUFS]"
    using assms by (intro map_cong) (simp_all add: tx_io_destroy_def)
  then have "tx_effects (tx_free_buffers 0 (tx_io_destroy s))
      = tx_effects s @ Io_destroy # map (\<lambda>k. Free (Some k)) [0 ..< NUM_BUFS]"
    using tx_free_buffers_effects [of 0 "tx_io_destroy s"] by (simp add: tx_io_destroy_def)
  then show ?thesis
    by (simp add: tx_shutdown_def tx_close_all_def shutdown_sequence_def Let_def NUM_BUFS_def)
qed

lemma THREAD_WRITE_Entrypoint_trace:
  assumes "THREAD_WRITE_Entrypoint stats malloc_ok usb_size submit_res eps = Inr (Some sf)"
  shows "\<exists>pre. tx_effects sf = pre @ shutdown_sequence stats \<and> list_all (\<lambda>e. \<not> is_teardown e) pre"
proof -
  from assms obtain s0 s1 where
    init: "tx_pool_init malloc_ok usb_size submit_res = Some s0"
    and loop: "tx_main_loop stats eps (s0\<lparr>tx_keep_running := True\<rparr>) = Inr (Some s1)"
    and sf: "sf = tx_shutdown stats s1"
    by (auto simp: THREAD_WRITE_Entrypoint_def split: sum.splits option.splits)
  from tx_pool_init_Some [OF init]
  have b0: "tx_buffers s0 = map Some [0 ..< NUM_BUFS]"
    and e0: "tx_effects s0 = [Io_submit_all (map Some [0 ..< 16])]"
    by (simp_all add: tx_state_ready_def NUM_BUFS_def)
  from tx_main_loop_frame [OF loop] obtain added where
    f: "tx_buffers s1 = tx_buffers s0" "tx_effects s1 = Io_submit_all (map Some [0 ..< 16]) # added"
      "list_all (\<lambda>e. \<not> is_teardown e) added"
    using e0 by (auto simp: tx_frame_def)
  from tx_shutdown_effects [of s1 stats] f(1) b0
  have "tx_effects sf = (Io_submit_all (map Some [0 ..< 16]) # added) @ shutdown_sequence stats"
    by (simp add: sf f(2))
  moreover have "list_all (\<lambda>e. \<not> is_teardown e) (Io_submit_all (map Some [0 ..< 16]) # added)"
    using f(3) by simp
  ultimately show ?thesis by blast
qed

text \<open>Claim C3. Every run of an engine that leaves its main loop, by cancellation or by a
  failure, ends with the shutdown sequence, and in the trace of the whole run the context
  is destroyed once, before any buffer is freed; each of the sixteen pool buffers is freed;
  and every one of them is freed before the hardware buffer and the hardware context are
  released. The same for the TX engine.\<close>

theorem teardown_in_strict_order:
  "(THREAD_READ_Entrypoint stats malloc_ok usb_size eps = Inr (Some sf) \<longrightarrow>
      shutdown_ordered (effects sf) \<and>
      (\<exists>pre. effects sf = pre @ shutdown_sequence stats \<and> list_all (\<lambda>e. \<not> is_teardown e) pre)) \<and>
   (THREAD_WRITE_Entrypoint stats malloc_ok usb_size submit_res teps = Inr (Some tf) \<longrightarrow>
      shutdown_ordered (tx_effects tf) \<and>
      (\<exists>pre. tx_effects tf = pre @ shutdown_sequence stats \<and> list_all (\<lambda>e. \<not> is_teardown e) pre))"
  using THREAD_READ_Entrypoint_trace [of stats malloc_ok usb_size eps sf]
    THREAD_WRITE_Entrypoint_trace [of stats malloc_ok usb_size submit_res teps tf]
    shutdown_ordered_prefix [of _ stats]
  by metis

lemma rx_example_run:
  "case THREAD_READ_Entrypoint False (\<lambda>i. True) 4096
          [Epoll_ready [Iio_ready 4096 1],
           Epoll_ready [Aio_ready 8 1 [\<lparr>data = Some 0, res = 4096, res2 = 0\<rparr>], Quit_ready]] of
     Inr (Some sf) \<Rightarrow> effects sf = [Iio_buffer_refill, Io_submit (Some 0)] @ shutdown_sequence False
   | _ \<Rightarrow> False"
  by code_simp

lemma tx_example_run:
  "case THREAD_WRITE_Entrypoint False (\<lambda>i. True) 4096 16
          [Tx_epoll_ready [Tx_aio_ready 8 1 [(\<lparr>data = Some 0, res = 4096, res2 = 0\<rparr>, 4096, 1)]],
           Tx_epoll_ready [Tx_quit_ready]] of
     Inr (Some tf) \<Rightarrow> tx_effects tf =
         [Io_submit_all (map Some [0 ..< 16]), Iio_buffer_push, Io_submit (Some 0)] @ shutdown_sequence False
   | _ \<Rightarrow> False"
  by code_simp

theorem teardown_in_strict_order_witness:
  "(\<exists>sf. THREAD_READ_Entrypoint False (\<lambda>i. True) 4096
          [Epoll_ready [Iio_ready 4096 1],
           Epoll_ready [Aio_ready 8 1 [\<lparr>data = Some 0, res = 4096, res2 = 0\<rparr>], Quit_ready]]
        = Inr (Some sf) \<and>
      effects sf = [Iio_buffer_refill, Io_submit (Some 0)] @ shutdown_sequence False \<and>
      shutdown_ordered (effects sf)) \<and>
   (\<exists>tf. THREAD_WRITE_Entrypoint False (\<lambda>i. True) 4096 16
          [Tx_epoll_ready [Tx_aio_ready 8 1 [(\<lparr>data = Some 0, res = 4096, res2 = 0\<rparr>, 4096, 1)]],
           Tx_epoll_ready [Tx_quit_ready]]
        = Inr (Some tf) \<and>
      tx_effects tf =
         [Io_submit_all (map Some [0 ..< 16]), Iio_buffer_push, Io_submit (Some 0)] @ shutdown_sequence False \<and>
      shutdown_ordered (tx_effects tf))"
proof -
  let ?eps = "[Epoll_ready [Iio_ready 4096 1],
           Epoll_ready [Aio_ready 8 1 [\<lparr>data = Some 0, res = 4096, res2 = 0\<rparr>], Quit_ready]]"
  let ?teps = "[Tx_epoll_ready [Tx_aio_ready 8 1 [(\<lparr>data = Some 0, res = 4096, res2 = 0\<rparr>, 4096, 1)]],
           Tx_epoll_ready [Tx_quit_ready]]"
  from rx_example_run obtain sf where
    sf: "THREAD_READ_Entrypoint False (\<lambda>i. True) 4096 ?eps = Inr (Some sf)"
      "effects sf = [Iio_buffer_refill, Io_submit (Some 0)] @ shutdown_sequence False"
    by (auto split: sum.splits option.splits)
  from tx_example_run obtain tf where
    tf: "THREAD_WRITE_Entrypoint False (\<lambda>i. True) 4096 16 ?teps = Inr (Some tf)"
      "tx_effects tf =
         [Io_submit_all (map Some [0 ..< 16]), Iio_buffer_push, Io_submit (Some 0)] @ shutdown_sequence False"
    by (auto split: sum.splits option.splits)
  from teardown_in_strict_order [of False "\<lambda>i. True" 4096 ?eps sf 16 ?teps tf] sf(1) tf(1)
  have "shutdown_ordered (effects sf)" "shutdown_ordered (tx_effects tf)" by blast+
  with sf tf show ?thesis by blast
qed

section \<open>Properties of the control plane\<close>

lemma stop_thread_not_started:
  "\<not> dir_started tx s \<Longrightarrow> stop_thread env s tx = (True, s)"
  by (auto simp: stop_thread_def dir_started_def)

text \<open>Claim C9. A \<^verbatim>\<open>START\<close> request whose data is not exactly 8 bytes long (the size of
  \<^verbatim>\<open>cmdStartRequest_t\<close>) is rejected: \<^verbatim>\<open>handle_ep0\<close> returns 0 and changes nothing
  but the trace, which gains the one message on standard output. No eventfd is written, no
  thread is joined or created, and the flags, the argument blocks and the threads are as
  before.\<close>

theorem malformed_start_rejected:
  assumes "event_read_ret inp = sizeof_event" and "event_type inp = FUNCTIONFS_SETUP"
    and "bRequestType (ctrl inp) AND USB_DIR_IN = 0"
    and "bRequest (ctrl inp) = SDR_USB_GADGET_COMMAND_START"
    and "0 \<le> read_count inp" and "read_count inp \<noteq> 8"
  shows "handle_ep0 inp s =
           (0, s\<lparr>main_effects := main_effects s @ [Printf ''Bad start request, incorrect data size'']\<rparr>) \<and>
         read_started (snd (handle_ep0 inp s)) = read_started s \<and>
         write_started (snd (handle_ep0 inp s)) = write_started s \<and>
         read_args (snd (handle_ep0 inp s)) = read_args s \<and>
         write_args (snd (handle_ep0 inp s)) = write_args s \<and>
         threads (snd (handle_ep0 inp s)) = threads s"
  using assms
  by (simp add: handle_ep0_def command_start_def sizeof_cmdStartRequest_t_def)

theorem malformed_start_rejected_witness:
  "handle_ep0 \<lparr>event_read_ret = 12, event_type = FUNCTIONFS_SETUP,
               ctrl = \<lparr>bRequestType = 0x40, bRequest = 0x10, wValue = 0, wIndex = 0, wLength = 4\<rparr>,
               null_write_ret = 0, read_count = 4, control_in_data = [3, 0, 0, 0],
               stop_env = (\<lambda>tx. \<lparr>eventfd_write_ret = 8, eventfd_read_ret = 8\<rparr>),
               start_env = \<lparr>sigmask_ret = 0, pthread_create_ret = 0, sigrestore_ret = 0\<rparr>\<rparr>
     (main_state_init 5 6 7 8)
   = (0, (main_state_init 5 6 7 8)
           \<lparr>main_effects := [Printf ''Bad start request, incorrect data size'']\<rparr>)"
proof -
  have e: "main_effects (main_state_init 5 6 7 8) = []" by (simp add: main_state_init_def)
  from malformed_start_rejected [of "\<lparr>event_read_ret = 12, event_type = FUNCTIONFS_SETUP,
               ctrl = \<lparr>bRequestType = 0x40, bRequest = 0x10, wValue = 0, wIndex = 0, wLength = 4\<rparr>,
               null_write_ret = 0, read_count = 4, control_in_data = [3, 0, 0, 0],
               stop_env = (\<lambda>tx. \<lparr>eventfd_write_ret = 8, eventfd_read_ret = 8\<rparr>),
               start_env = \<lparr>sigmask_ret = 0, pthread_create_ret = 0, sigrestore_ret = 0\<rparr>\<rparr>"
      "main_state_init 5 6 7 8"]
  show ?thesis
    by (simp add: sizeof_event_def USB_DIR_IN_def SDR_USB_GADGET_COMMAND_START_def e)
qed


lemma main_invD:
  assumes "main_inv s" "t \<in> set (threads s)"
  shows "thread_id t < next_thread s" and "dir_started (thread_tx t) s"
    and "thread_id t = dir_thread (thread_tx t) s"
  using assms unfolding main_inv_def by blast+





lemma main_inv_Nil:
  "threads s = [] \<Longrightarrow> main_inv s"
  by (simp add: main_inv_def)

lemma main_inv_same:
  assumes "main_inv s" "threads s' = threads s" "next_thread s' = next_thread s"
    "\<And>d. dir_started d s \<Longrightarrow> dir_started d s'" "\<And>d. dir_thread d s' = dir_thread d s"
  shows "main_inv s'"
  unfolding main_inv_def
proof (intro conjI ballI)
  show "distinct (map thread_id (threads s'))"
    using assms(1,2) by (simp add: main_inv_def)
next
  fix t assume "t \<in> set (threads s')"
  then have m: "t \<in> set (threads s)" using assms(2) by simp
  note a = main_invD [OF assms(1) m]
  show "thread_id t < next_thread s'" using a(1) assms(3) by simp
  show "dir_started (thread_tx t) s'" using a(2) assms(4) by blast
  show "thread_id t = dir_thread (thread_tx t) s'" using a(3) assms(5) by simp
qed

lemma main_inv_join:
  assumes inv: "main_inv s"
    and th: "threads s' = filter (\<lambda>t. thread_id t \<noteq> dir_thread tx s) (threads s)"
    and nx: "next_thread s' = next_thread s"
    and st: "dir_started (\<not> tx) s \<Longrightarrow> dir_started (\<not> tx) s'"
    and hd: "\<And>d. dir_thread d s' = dir_thread d s"
  shows "main_inv s'"
  unfolding main_inv_def th nx
proof (intro conjI ballI)
  from inv have "distinct (map thread_id (threads s))" by (simp add: main_inv_def)
  then show "distinct (map thread_id (filter (\<lambda>t. thread_id t \<noteq> dir_thread tx s) (threads s)))"
    by (simp add: distinct_map_filter)
next
  fix t assume t: "t \<in> set (filter (\<lambda>t. thread_id t \<noteq> dir_thread tx s) (threads s))"
  then have m: "t \<in> set (threads s)" and ne: "thread_id t \<noteq> dir_thread tx s" by simp_all
  note a = main_invD [OF inv m]
  have "thread_tx t \<noteq> tx"
  proof
    assume "thread_tx t = tx"
    with a(3) ne show False by simp
  qed
  then have other: "thread_tx t = (\<not> tx)" by blast
  show "thread_id t < next_thread s" by (rule a(1))
  show "dir_started (thread_tx t) s'" using a(2) st other by simp
  show "thread_id t = dir_thread (thread_tx t) s'" using a(3) hd by simp
qed

lemma main_inv_create:
  assumes inv: "main_inv s" and ns: "\<not> dir_started tx s"
    and th: "threads s' = threads s @ [new]" and new: "thread_id new = next_thread s" "thread_tx new = tx"
    and nx: "next_thread s' = Suc (next_thread s)"
    and st: "dir_started tx s'" "dir_started (\<not> tx) s' = dir_started (\<not> tx) s"
    and hd: "dir_thread tx s' = next_thread s" "dir_thread (\<not> tx) s' = dir_thread (\<not> tx) s"
  shows "main_inv s'"
  unfolding main_inv_def th nx
proof (intro conjI ballI)
  from inv have d: "distinct (map thread_id (threads s))" by (simp add: main_inv_def)
  have "next_thread s \<notin> thread_id ` set (threads s)"
  proof
    assume "next_thread s \<in> thread_id ` set (threads s)"
    then obtain t where "t \<in> set (threads s)" "thread_id t = next_thread s" by auto
    with main_invD(1) [OF inv, of t] show False by simp
  qed
  with d show "distinct (map thread_id (threads s @ [new]))" by (simp add: new)
next
  fix t assume "t \<in> set (threads s @ [new])"
  then consider "t = new" | "t \<in> set (threads s)" by auto
  then show "thread_id t < Suc (next_thread s)"
  proof cases
    case 1
    then show ?thesis by (simp add: new)
  next
    case 2
    from main_invD(1) [OF inv this] show ?thesis by simp
  qed
next
  fix t assume "t \<in> set (threads s @ [new])"
  then consider "t = new" | "t \<in> set (threads s)" by auto
  then show "dir_started (thread_tx t) s'"
  proof cases
    case 1
    then show ?thesis by (simp add: new st)
  next
    case 2
    have "thread_tx t \<noteq> tx"
    proof
      assume "thread_tx t = tx"
      with main_invD(2) [OF inv 2] ns show False by simp
    qed
    then have "thread_tx t = (\<not> tx)" by blast
    with main_invD(2) [OF inv 2] st(2) show ?thesis by simp
  qed
next
  fix t assume "t \<in> set (threads s @ [new])"
  then consider "t = new" | "t \<in> set (threads s)" by auto
  then show "thread_id t = dir_thread (thread_tx t) s'"
  proof cases
    case 1
    then show ?thesis by (simp add: new hd)
  next
    case 2
    have "thread_tx t \<noteq> tx"
    proof
      assume "thread_tx t = tx"
      with main_invD(2) [OF inv 2] ns show False by simp
    qed
    then have "thread_tx t = (\<not> tx)" by blast
    with main_invD(3) [OF inv 2] hd(2) show ?thesis by simp
  qed
qed

lemma stop_thread_inv:
  assumes inv: "main_inv s"
  shows "main_inv (snd (stop_thread env s tx))"
proof (cases "dir_started tx s")
  case False
  then show ?thesis using inv by (simp add: stop_thread_not_started)
next
  case True
  show ?thesis
  proof (cases "eventfd_write_ret env < 0")
    case wf: True
    show ?thesis
      by (rule main_inv_same [OF inv])
         (use True wf in \<open>auto simp: stop_thread_def dir_started_def dir_thread_def Let_def split: if_splits\<close>)
  next
    case False
    show ?thesis
      by (rule main_inv_join [OF inv, of _ tx])
         (use True False in \<open>auto simp: stop_thread_def dir_started_def dir_thread_def Let_def split: if_splits\<close>)
  qed
qed

lemma start_thread_inv:
  assumes inv: "main_inv s"
  shows "main_inv (snd (start_thread env s tx))"
proof (cases "sigmask_ret env < 0 \<or> dir_started tx s \<or> pthread_create_ret env \<noteq> 0")
  case True
  show ?thesis
    by (rule main_inv_same [OF inv])
       (use True in \<open>auto simp: start_thread_def create_read_thread_def create_write_thread_def
          dir_started_def dir_thread_def Let_def split: if_splits\<close>)
next
  case False
  then have ns: "\<not> dir_started tx s" by simp
  show ?thesis
    by (rule main_inv_create [OF inv ns, where new = "\<lparr>thread_id = next_thread s, thread_tx = tx,
            thread_args = dir_args tx s\<rparr>"])
       (use False in \<open>auto simp: start_thread_def create_read_thread_def create_write_thread_def
          dir_started_def dir_thread_def dir_args_def Let_def split: if_splits\<close>)
qed

lemma main_inv_args:
  "main_inv (s\<lparr>read_args := a\<rparr>) = main_inv s"
  "main_inv (s\<lparr>write_args := a\<rparr>) = main_inv s"
  "main_inv (s\<lparr>config_enabled := c\<rparr>) = main_inv s"
  "main_inv (s\<lparr>main_effects := e\<rparr>) = main_inv s"
  by (simp_all add: main_inv_def dir_started_def dir_thread_def)

lemma command_start_inv:
  assumes "main_inv s"
  shows "main_inv (command_start inp s)"
  using assms stop_thread_inv start_thread_inv
  by (simp add: command_start_def Let_def main_inv_args)

lemma handle_ep0_inv:
  assumes inv: "main_inv s"
  shows "main_inv (snd (handle_ep0 inp s))"
proof -
  have stop2: "main_inv (snd (stop_thread e2 (snd (stop_thread e1 s False)) True))" for e1 e2
    by (intro stop_thread_inv inv)
  show ?thesis
  proof (cases "event_type inp")
    case FUNCTIONFS_SETUP
    then show ?thesis
      using inv command_start_inv [OF inv, of inp] stop_thread_inv [OF inv]
      by (simp add: handle_ep0_def command_stop_def Let_def main_inv_args)
  next
    case FUNCTIONFS_DISABLE
    then show ?thesis
      using inv stop_thread_inv [OF inv, of "stop_env inp False" False]
        stop2 [of "stop_env inp True" "stop_env inp False"]
      by (simp add: handle_ep0_def Let_def main_inv_args case_prod_beta)
  qed (use inv in \<open>simp_all add: handle_ep0_def main_inv_args\<close>)
qed

lemma main_reach_inv: "main_reach s \<Longrightarrow> main_inv s"
proof (induction rule: main_reach.induct)
  case (main_start read_efd write_efd ep1 ep2)
  show ?case by (rule main_inv_Nil) (simp add: main_state_init_def)
next
  case (main_step s inp)
  then show ?case by (simp add: handle_ep0_inv)
qed

lemma at_most_one_engine:
  assumes "main_reach s"
  shows "length (engines tx s) \<le> 1"
proof -
  note inv = main_reach_inv [OF assms]
  have d: "distinct (map thread_id (engines tx s))"
    using inv by (simp add: main_inv_def engines_def distinct_map_filter)
  have "thread_id t = dir_thread tx s" if "t \<in> set (engines tx s)" for t
    using main_invD(3) [OF inv, of t] that by (auto simp: engines_def)
  then have "set (map thread_id (engines tx s)) \<subseteq> {dir_thread tx s}" by auto
  then have "card (set (map thread_id (engines tx s))) \<le> 1"
    by (metis card_mono card.empty card_insert_disjoint empty_iff finite.emptyI finite.insertI One_nat_def)
  with distinct_card [OF d] show ?thesis by simp
qed











section \<open>Properties of the set-up of the RX engine thread\<close>







text \<open>The set-up agrees with \<^verbatim>\<open>THREAD_READ_Entrypoint\<close> as modelled from the pool on: when
  the set-up enters the main loop, the rest of the thread is the main loop from that state
  and then the shutdown sequence.\<close>

lemma THREAD_READ_setup_Entrypoint:
  assumes "THREAD_READ_setup stats args env = Inr (Inr s)"
  shows "THREAD_READ_Entrypoint stats (malloc_results env)
           (iio_buffer_step_ret env * iio_buffer_size args) eps =
         (case rx_main_loop stats eps s of
            Inl f \<Rightarrow> Inl f
          | Inr None \<Rightarrow> Inr None
          | Inr (Some s') \<Rightarrow> Inr (Some (rx_shutdown stats s')))"
proof -
  from assms obtain s0 where
    "rx_pool_init (malloc_results env) (iio_buffer_step_ret env * iio_buffer_size args) = Inr (Some s0)"
    "s = s0\<lparr>keep_running := True\<rparr>"
    unfolding THREAD_READ_setup_def
    by (auto split: if_splits option.splits sum.splits)
  then show ?thesis by (simp add: THREAD_READ_Entrypoint_def)
qed

section \<open>Two START requests in a row\<close>






end
